theory Spec2Isabelle
  imports Complex_Main
begin

section \<open>Data model (types.ts)\<close>

text \<open>
  JavaScript numbers are modelled as \<^typ>\<open>real\<close>: the rounding of IEEE doubles is not
  represented. A value of type \<open>number | null\<close> is a \<^typ>\<open>real option\<close>.
  The interface \<open>Set\<close> of the source is the record \<open>WorkoutSet\<close>; the fields \<open>id\<close> and
  \<open>completed\<close>, which several interfaces share, carry a prefix.
\<close>

record WorkoutSet =
  s_id :: string
  weight :: real
  reps :: real
  s_completed :: bool

record ExerciseInstance =
  ex_id :: string
  defId :: string
  sets :: "WorkoutSet list"

record Workout =
  w_id :: string
  date :: string
  title :: string
  w_note :: string
  exercises :: "ExerciseInstance list"
  completed :: bool
  elapsedSeconds :: real
  startTimestamp :: "real option"

text \<open>
  \<open>x || 0\<close> on a number yields \<open>0\<close> for a falsy \<open>x\<close>. A test \<open>if (t)\<close> on a
  \<open>number | null\<close> fails for \<open>null\<close> and for \<open>0\<close>; it is written out as a case
  distinction wherever the source has it.
\<close>

definition or0 :: "real \<Rightarrow> real" where
  "or0 x = (if x = 0 then 0 else x)"

section \<open>GymProvider: the optimistic in-memory store\<close>

text \<open>
  \<open>user\<close> tells whether a user is signed in, \<open>workouts\<close> is the React state of the
  provider, \<open>remote\<close> lists the operations sent to the remote table, \<open>calls\<close> lists the
  invocations of \<open>addWorkout\<close>, \<open>updateWorkout\<close> and \<open>deleteWorkout\<close> in order.
  \<open>generateId\<close> comes from \<open>services/utils\<close>, whose source is not available: it is the
  parameter \<open>gen\<close>, applied to the number \<open>idCount\<close> of calls made so far.
\<close>

datatype remote_op = Upsert Workout | DeleteRow string

datatype store_call = AddWorkout Workout | UpdateWorkout Workout | DeleteWorkout string

record Gym =
  user :: bool
  workouts :: "Workout list"
  remote :: "remote_op list"
  calls :: "store_call list"
  idCount :: nat

definition addWorkout :: "Workout \<Rightarrow> Gym \<Rightarrow> Gym" where
  "addWorkout w g =
     g\<lparr>workouts := workouts g @ [w],
       remote := remote g @ (if user g then [Upsert w] else []),
       calls := calls g @ [AddWorkout w]\<rparr>"

definition updateWorkout :: "Workout \<Rightarrow> Gym \<Rightarrow> Gym" where
  "updateWorkout updated g =
     g\<lparr>workouts := map (\<lambda>w. if w_id w = w_id updated then updated else w) (workouts g),
       remote := remote g @ (if user g then [Upsert updated] else []),
       calls := calls g @ [UpdateWorkout updated]\<rparr>"

definition deleteWorkout :: "string \<Rightarrow> Gym \<Rightarrow> Gym" where
  "deleteWorkout i g =
     g\<lparr>workouts := filter (\<lambda>w. w_id w \<noteq> i) (workouts g),
       remote := remote g @ (if user g then [DeleteRow i] else []),
       calls := calls g @ [DeleteWorkout i]\<rparr>"

definition copyWorkout :: "(nat \<Rightarrow> string) \<Rightarrow> string \<Rightarrow> string \<Rightarrow> Gym \<Rightarrow> Gym" where
  "copyWorkout gen workoutId targetDate g =
     (case find (\<lambda>w. w_id w = workoutId) (workouts g) of
        None \<Rightarrow> g
      | Some source \<Rightarrow>
          let newWorkout = source
                \<lparr>w_id := gen (idCount g),
                 date := targetDate,
                 completed := False,
                 elapsedSeconds := 0,
                 startTimestamp := None,
                 exercises :=
                   map (\<lambda>ex. ex\<lparr>sets := map (\<lambda>s. s\<lparr>s_completed := False\<rparr>) (sets ex)\<rparr>)
                     (exercises source)\<rparr>
          in addWorkout newWorkout (g\<lparr>idCount := idCount g + 1\<rparr>))"

section \<open>Timers of the browser\<close>

text \<open>
  A pending timeout is a triple of its handle, the time at which it is due (in ms) and its
  callback. \<open>window.setTimeout\<close> hands out the positive handles \<open>1, 2, \<dots>\<close>;
  \<open>clearTimeout\<close> of a handle that is not pending does nothing.
\<close>

type_synonym 'cb timer = "nat \<times> nat \<times> 'cb"

definition clearTimeout :: "nat \<Rightarrow> 'cb timer list \<Rightarrow> 'cb timer list" where
  "clearTimeout h ts = filter (\<lambda>t. fst t \<noteq> h) ts"

text \<open>\<open>if (ref.current) clearTimeout(ref.current)\<close>, for a ref of type \<open>number | null\<close>.\<close>

definition clearIfSet :: "nat option \<Rightarrow> 'cb timer list \<Rightarrow> 'cb timer list" where
  "clearIfSet r ts = (case r of None \<Rightarrow> ts | Some h \<Rightarrow> if h \<noteq> 0 then clearTimeout h ts else ts)"

text \<open>The timers that are due at time \<open>now\<close>, in the order in which the browser runs them.\<close>

definition dueTimers :: "nat \<Rightarrow> 'cb timer list \<Rightarrow> 'cb timer list" where
  "dueTimers now ts = sort_key (\<lambda>t. fst (snd t)) (filter (\<lambda>t. fst (snd t) \<le> now) ts)"

section \<open>WorkoutEditor: the draft and its reconciliation with the store\<close>

text \<open>
  The component is modelled as a state machine. A state holds the React state of the
  component (\<open>workout\<close>, \<open>showExModal\<close>, \<open>showReport\<close>), its refs, the route parameter
  \<open>id\<close>, the provider it reads (\<open>gym\<close>), the pending timers and a clock in ms.
  \<open>autosaveCleanup\<close> tells whether the last run of the autosave effect returned its cleanup
  function. Every event handler and every timer callback runs to its end, and the render
  and the effects it causes (\<open>commit\<close>) run before the next event: React's scheduling
  between a state update and its render is not represented. The display value
  \<open>currentTime\<close> and the interval that refreshes it are left out, as are the modals for
  choosing and creating exercise definitions. The argument of \<open>useState\<close> is evaluated
  again at every render and dropped; these calls of \<open>generateId\<close> are not counted.
\<close>

record Env =
  generateId :: "nat \<Rightarrow> string"
  today :: string

datatype timer_cb = ClearHydrating | AutosaveFlush Workout nat "Workout list"

record Editor =
  routeId :: "string option"
  mounted :: bool
  workout :: Workout
  showExModal :: bool
  showReport :: bool
  loadedIdRef :: "string option"
  isHydratingRef :: bool
  isDirtyRef :: bool
  editSeqRef :: nat
  autosaveTimerRef :: "nat option"
  autosaveCleanup :: bool
  gym :: Gym
  timers :: "timer_cb timer list"
  nextTimerId :: nat
  clock :: nat

definition setTimeout :: "timer_cb \<Rightarrow> nat \<Rightarrow> Editor \<Rightarrow> Editor" where
  "setTimeout cb delay s =
     s\<lparr>timers := timers s @ [(nextTimerId s, clock s + delay, cb)],
       nextTimerId := Suc (nextTimerId s)\<rparr>"

definition newDraft :: "Env \<Rightarrow> nat \<Rightarrow> Workout" where
  "newDraft env n =
     \<lparr>w_id = generateId env n, date = today env, title = ''New Workout'', w_note = '''',
      exercises = [], completed = False, elapsedSeconds = 0, startTimestamp = None\<rparr>"

definition markDirty :: "Editor \<Rightarrow> Editor" where
  "markDirty s = s\<lparr>isDirtyRef := True, editSeqRef := editSeqRef s + 1\<rparr>"

text \<open>
  The hydration effect (dependencies \<open>[id, workouts]\<close>). The result is the state after the
  body and the argument of \<open>setWorkout\<close>, if the body called it.
\<close>

definition hydration_effect :: "Env \<Rightarrow> Editor \<Rightarrow> Editor \<times> Workout option" where
  "hydration_effect env s =
     (case routeId s of
        None \<Rightarrow> (s, None)
      | Some rid \<Rightarrow>
          if rid = [] then (s, None)
          else if rid = ''new'' then
            (if loadedIdRef s = Some ''new'' then (s, None)
             else
               (setTimeout ClearHydrating 0
                  (s\<lparr>isHydratingRef := True, isDirtyRef := False,
                     loadedIdRef := Some ''new'',
                     gym := (gym s)\<lparr>idCount := idCount (gym s) + 1\<rparr>\<rparr>),
                Some (newDraft env (idCount (gym s)))))
          else if loadedIdRef s = Some rid then (s, None)
          else if isDirtyRef s then (s, None)
          else
            (case find (\<lambda>w. w_id w = rid) (workouts (gym s)) of
               None \<Rightarrow> (s, None)
             | Some existing \<Rightarrow>
                 (setTimeout ClearHydrating 0
                    (s\<lparr>isHydratingRef := True, loadedIdRef := Some rid, isDirtyRef := False\<rparr>),
                  Some existing)))"

text \<open>The autosave effect (dependency \<open>[workout]\<close>): its cleanup and its body.\<close>

definition autosave_cleanup :: "Editor \<Rightarrow> Editor" where
  "autosave_cleanup s =
     (if autosaveCleanup s then s\<lparr>timers := clearIfSet (autosaveTimerRef s) (timers s)\<rparr> else s)"

definition autosave_effect :: "Editor \<Rightarrow> Editor" where
  "autosave_effect s =
     (if isHydratingRef s then s\<lparr>autosaveCleanup := False\<rparr>
      else if \<not> isDirtyRef s then s\<lparr>autosaveCleanup := False\<rparr>
      else if exercises (workout s) = [] then s\<lparr>autosaveCleanup := False\<rparr>
      else
        (setTimeout (AutosaveFlush (workout s) (editSeqRef s) (workouts (gym s))) 650
           (s\<lparr>timers := clearIfSet (autosaveTimerRef s) (timers s)\<rparr>))
          \<lparr>autosaveTimerRef := Some (nextTimerId s), autosaveCleanup := True\<rparr>)"

text \<open>
  One render and its effects. \<open>wsChanged\<close>: the route parameter or the provider's
  \<open>workouts\<close> changed; \<open>wChanged\<close>: \<open>workout\<close> changed. The cleanups of the effects that
  run again come first, then the bodies in the order of their declaration. A
  \<open>setWorkout\<close> in the hydration effect causes a second render, in which only the autosave
  effect runs again.
\<close>

definition commit :: "Env \<Rightarrow> bool \<Rightarrow> bool \<Rightarrow> Editor \<Rightarrow> Editor" where
  "commit env wsChanged wChanged s =
     (let s1 = (if wChanged then autosave_cleanup s else s);
          (s2, q) = (if wsChanged then hydration_effect env s1 else (s1, None));
          s3 = (if wChanged then autosave_effect s2 else s2)
      in case q of
           None \<Rightarrow> s3
         | Some w \<Rightarrow> autosave_effect (autosave_cleanup (s3\<lparr>workout := w\<rparr>)))"

text \<open>Leaving the route unmounts the component: the cleanups of its effects run.\<close>

definition unmount :: "Editor \<Rightarrow> Editor" where
  "unmount s = (autosave_cleanup s)\<lparr>mounted := False\<rparr>"

text \<open>
  \<open>saveWorkoutToContext\<close>: \<open>ws\<close> is the list \<open>workouts\<close> of the render whose closure makes
  the call; the provider's functions act on the provider's current state.
\<close>

definition saveWorkoutToContext :: "Workout list \<Rightarrow> Workout \<Rightarrow> Gym \<Rightarrow> Gym" where
  "saveWorkoutToContext ws w g =
     (if list_ex (\<lambda>existing. w_id existing = w_id w) ws then updateWorkout w g
      else addWorkout w g)"

subsection \<open>Event handlers\<close>

text \<open>
  The workout that \<open>toggleTimer\<close>, \<open>handleFinish\<close> and \<open>handleResume\<close> build from the
  current one; \<open>now\<close> is the value of \<open>Date.now()\<close>.
\<close>

definition toggled :: "real \<Rightarrow> Workout \<Rightarrow> Workout" where
  "toggled now w =
     (case startTimestamp w of
        None \<Rightarrow> w\<lparr>startTimestamp := Some now\<rparr>
      | Some st \<Rightarrow>
          if st \<noteq> 0 then
            w\<lparr>startTimestamp := None,
              elapsedSeconds := or0 (elapsedSeconds w) + (now - st) / 1000\<rparr>
          else w\<lparr>startTimestamp := Some now\<rparr>)"

definition finished :: "real \<Rightarrow> Workout \<Rightarrow> Workout" where
  "finished now w =
     (let finalElapsed = or0 (elapsedSeconds w);
          finalElapsed =
            (case startTimestamp w of
               None \<Rightarrow> finalElapsed
             | Some st \<Rightarrow> if st \<noteq> 0 then finalElapsed + (now - st) / 1000 else finalElapsed)
      in w\<lparr>completed := True, startTimestamp := None, elapsedSeconds := finalElapsed\<rparr>)"

definition resumed :: "Workout \<Rightarrow> Workout" where
  "resumed w = w\<lparr>completed := False\<rparr>"

definition toggleTimer :: "Env \<Rightarrow> real \<Rightarrow> Editor \<Rightarrow> Editor" where
  "toggleTimer env now s =
     (if completed (workout s) then s
      else
        let updated = toggled now (workout s);
            s1 = (markDirty s)\<lparr>workout := updated\<rparr>
        in if exercises updated \<noteq> [] then
             commit env True True
               (s1\<lparr>gym := saveWorkoutToContext (workouts (gym s)) updated (gym s)\<rparr>)
           else commit env False True s1)"

definition handleFinish :: "Env \<Rightarrow> real \<Rightarrow> Editor \<Rightarrow> Editor" where
  "handleFinish env now s =
     (if exercises (workout s) = [] then
        unmount
          (if list_ex (\<lambda>w. w_id w = w_id (workout s)) (workouts (gym s))
           then s\<lparr>gym := deleteWorkout (w_id (workout s)) (gym s)\<rparr> else s)
      else
        let updated = finished now (workout s)
        in commit env True True
             (s\<lparr>workout := updated,
                gym := saveWorkoutToContext (workouts (gym s)) updated (gym s),
                showReport := True\<rparr>))"

definition handleResume :: "Env \<Rightarrow> Editor \<Rightarrow> Editor" where
  "handleResume env s =
     (let updated = resumed (workout s)
      in commit env True True
           (s\<lparr>workout := updated,
              gym := saveWorkoutToContext (workouts (gym s)) updated (gym s)\<rparr>))"

definition handleExitReport :: "Editor \<Rightarrow> Editor" where
  "handleExitReport s = unmount (s\<lparr>showReport := False\<rparr>)"

definition handleSaveBack :: "Editor \<Rightarrow> Editor" where
  "handleSaveBack s =
     (if exercises (workout s) = [] then
        unmount
          (if list_ex (\<lambda>w. w_id w = w_id (workout s)) (workouts (gym s))
           then s\<lparr>gym := deleteWorkout (w_id (workout s)) (gym s)\<rparr> else s)
      else
        unmount (s\<lparr>gym := saveWorkoutToContext (workouts (gym s)) (workout s) (gym s)\<rparr>))"

text \<open>The set that \<open>addExercise\<close> and \<open>deleteSet\<close> create; \<open>i\<close> is its generated id.\<close>

definition defaultSet :: "string \<Rightarrow> WorkoutSet" where
  "defaultSet i = \<lparr>s_id = i, weight = 0, reps = 0, s_completed = False\<rparr>"

definition addExercise :: "Env \<Rightarrow> string \<Rightarrow> Editor \<Rightarrow> Editor" where
  "addExercise env d s =
     (let baseWorkout =
            (if completed (workout s) then (workout s)\<lparr>completed := False\<rparr> else workout s);
          n = idCount (gym s);
          newInstance =
            \<lparr>ex_id = generateId env n, defId = d,
             sets = [defaultSet (generateId env (n + 1))]\<rparr>;
          updated = baseWorkout\<lparr>exercises := exercises baseWorkout @ [newInstance]\<rparr>
      in commit env True True
           ((markDirty s)
              \<lparr>workout := updated,
               gym := saveWorkoutToContext (workouts (gym s)) updated
                        ((gym s)\<lparr>idCount := n + 2\<rparr>),
               showExModal := False\<rparr>))"

text \<open>
  \<open>updateSet\<close> assigns one field of a set (\<open>[field]: value\<close> with \<open>field: keyof Set\<close>).
\<close>

datatype field_update = SetId string | SetWeight real | SetReps real | SetCompleted bool

fun assign :: "field_update \<Rightarrow> WorkoutSet \<Rightarrow> WorkoutSet" where
  "assign (SetId v) st = st\<lparr>s_id := v\<rparr>"
| "assign (SetWeight v) st = st\<lparr>weight := v\<rparr>"
| "assign (SetReps v) st = st\<lparr>reps := v\<rparr>"
| "assign (SetCompleted v) st = st\<lparr>s_completed := v\<rparr>"

definition updateSet_exercises ::
    "string \<Rightarrow> string \<Rightarrow> field_update \<Rightarrow> ExerciseInstance list \<Rightarrow> ExerciseInstance list" where
  "updateSet_exercises exId setId fu exs =
     map (\<lambda>ex. if ex_id ex = exId
                then ex\<lparr>sets := map (\<lambda>st. if s_id st = setId then assign fu st else st) (sets ex)\<rparr>
                else ex) exs"

text \<open>
  \<open>addSet\<close> and \<open>deleteSet\<close> map over the exercises and call \<open>generateId\<close> inside the
  callback: the functions below thread the count \<open>n\<close> of calls through the list.
  \<open>last?.weight || 0\<close> is \<open>0\<close> when the exercise has no set.
\<close>

fun addSet_exercises ::
    "Env \<Rightarrow> string \<Rightarrow> nat \<Rightarrow> ExerciseInstance list \<Rightarrow> ExerciseInstance list \<times> nat" where
  "addSet_exercises env exId n [] = ([], n)"
| "addSet_exercises env exId n (ex # rest) =
     (if ex_id ex \<noteq> exId then
        (let (r, n') = addSet_exercises env exId n rest in (ex # r, n'))
      else
        (let newSet =
               \<lparr>s_id = generateId env n,
                weight = (if sets ex = [] then 0 else or0 (weight (last (sets ex)))),
                reps = (if sets ex = [] then 0 else or0 (reps (last (sets ex)))),
                s_completed = False\<rparr>;
             (r, n') = addSet_exercises env exId (n + 1) rest
         in (ex\<lparr>sets := sets ex @ [newSet]\<rparr> # r, n')))"

fun deleteSet_exercises ::
    "Env \<Rightarrow> string \<Rightarrow> string \<Rightarrow> nat \<Rightarrow> ExerciseInstance list \<Rightarrow> ExerciseInstance list \<times> nat" where
  "deleteSet_exercises env exId setId n [] = ([], n)"
| "deleteSet_exercises env exId setId n (ex # rest) =
     (if ex_id ex \<noteq> exId then
        (let (r, n') = deleteSet_exercises env exId setId n rest in (ex # r, n'))
      else
        (let next = filter (\<lambda>st. s_id st \<noteq> setId) (sets ex)
         in if next \<noteq> [] then
              (let (r, n') = deleteSet_exercises env exId setId n rest
               in (ex\<lparr>sets := next\<rparr> # r, n'))
            else
              (let (r, n') = deleteSet_exercises env exId setId (n + 1) rest
               in (ex\<lparr>sets := [defaultSet (generateId env n)]\<rparr> # r, n'))))"

text \<open>
  A local edit: \<open>markDirty()\<close> and \<open>setWorkout(updated)\<close>, then the render.
\<close>

definition localEdit :: "Env \<Rightarrow> Workout \<Rightarrow> Editor \<Rightarrow> Editor" where
  "localEdit env updated s = commit env False True ((markDirty s)\<lparr>workout := updated\<rparr>)"

definition updateSet :: "Env \<Rightarrow> string \<Rightarrow> string \<Rightarrow> field_update \<Rightarrow> Editor \<Rightarrow> Editor" where
  "updateSet env exId setId fu s =
     localEdit env
       ((workout s)\<lparr>exercises := updateSet_exercises exId setId fu (exercises (workout s))\<rparr>) s"

definition addSet :: "Env \<Rightarrow> string \<Rightarrow> Editor \<Rightarrow> Editor" where
  "addSet env exId s =
     (let (exs, n') = addSet_exercises env exId (idCount (gym s)) (exercises (workout s))
      in localEdit env ((workout s)\<lparr>exercises := exs\<rparr>)
           (s\<lparr>gym := (gym s)\<lparr>idCount := n'\<rparr>\<rparr>))"

definition deleteSet :: "Env \<Rightarrow> string \<Rightarrow> string \<Rightarrow> Editor \<Rightarrow> Editor" where
  "deleteSet env exId setId s =
     (let (exs, n') = deleteSet_exercises env exId setId (idCount (gym s)) (exercises (workout s))
      in localEdit env ((workout s)\<lparr>exercises := exs\<rparr>)
           (s\<lparr>gym := (gym s)\<lparr>idCount := n'\<rparr>\<rparr>))"

text \<open>The inline handlers of the title input, the note input and the remove button.\<close>

definition editTitle :: "Env \<Rightarrow> string \<Rightarrow> Editor \<Rightarrow> Editor" where
  "editTitle env v s = localEdit env ((workout s)\<lparr>title := v\<rparr>) s"

definition editNote :: "Env \<Rightarrow> string \<Rightarrow> Editor \<Rightarrow> Editor" where
  "editNote env v s = localEdit env ((workout s)\<lparr>w_note := v\<rparr>) s"

definition removeExercise :: "Env \<Rightarrow> string \<Rightarrow> Editor \<Rightarrow> Editor" where
  "removeExercise env exId s =
     localEdit env
       ((workout s)\<lparr>exercises := filter (\<lambda>e. ex_id e \<noteq> exId) (exercises (workout s))\<rparr>) s"

subsection \<open>Timer callbacks and the passing of time\<close>

text \<open>
  \<open>fire h\<close> runs the callback of the timer with handle \<open>h\<close>, if it is still pending. The
  autosave callback is the closure of the render that scheduled it: it holds that
  render's \<open>workout\<close>, the value of \<open>editSeqRef\<close> read by the effect, and that render's
  \<open>workouts\<close>. The store changes, so the mounted component renders again.
\<close>

definition fire :: "Env \<Rightarrow> nat \<Rightarrow> Editor \<Rightarrow> Editor" where
  "fire env h s =
     (case find (\<lambda>t. fst t = h) (timers s) of
        None \<Rightarrow> s
      | Some t \<Rightarrow>
          let s1 = s\<lparr>timers := clearTimeout h (timers s)\<rparr>
          in case snd (snd t) of
               ClearHydrating \<Rightarrow> s1\<lparr>isHydratingRef := False\<rparr>
             | AutosaveFlush w seq ws \<Rightarrow>
                 (let s2 = s1\<lparr>gym := saveWorkoutToContext ws w (gym s1)\<rparr>;
                      s3 = (if seq = editSeqRef s2 then s2\<lparr>isDirtyRef := False\<rparr> else s2)
                  in if mounted s3 then commit env True False s3 else s3))"

text \<open>
  \<open>advance d\<close>: \<open>d\<close> ms pass, and the timers that are due by then run, in the order of
  their due times. A timer that a callback schedules runs at a later \<open>advance\<close>.
\<close>

definition advance :: "Env \<Rightarrow> nat \<Rightarrow> Editor \<Rightarrow> Editor" where
  "advance env d s =
     (let s1 = s\<lparr>clock := clock s + d\<rparr>
      in fold (fire env) (map fst (dueTimers (clock s1) (timers s1))) s1)"

subsection \<open>Events\<close>

text \<open>
  \<open>SetRoute\<close>: the router gives the mounted component another \<open>id\<close>. \<open>Refresh\<close>: the
  provider's \<open>workouts\<close> are replaced (a fetch, or a mutation made elsewhere). The button
  for \<open>handleResume\<close> is rendered for a completed workout only, and the report can be
  left only while it is open.
\<close>

datatype event =
    SetRoute "string option"
  | Refresh "Workout list"
  | EditTitle string
  | EditNote string
  | RemoveExercise string
  | UpdateSet string string field_update
  | AddSet string
  | DeleteSet string string
  | AddExercise string
  | ToggleTimer real
  | Finish real
  | Resume
  | SaveBack
  | ExitReport
  | Advance nat

fun handle :: "Env \<Rightarrow> event \<Rightarrow> Editor \<Rightarrow> Editor" where
  "handle env (SetRoute r) s = commit env True False (s\<lparr>routeId := r\<rparr>)"
| "handle env (Refresh ws) s = commit env True False (s\<lparr>gym := (gym s)\<lparr>workouts := ws\<rparr>\<rparr>)"
| "handle env (EditTitle v) s = editTitle env v s"
| "handle env (EditNote v) s = editNote env v s"
| "handle env (RemoveExercise exId) s = removeExercise env exId s"
| "handle env (UpdateSet exId setId fu) s = updateSet env exId setId fu s"
| "handle env (AddSet exId) s = addSet env exId s"
| "handle env (DeleteSet exId setId) s = deleteSet env exId setId s"
| "handle env (AddExercise d) s = addExercise env d s"
| "handle env (ToggleTimer now) s = toggleTimer env now s"
| "handle env (Finish now) s = handleFinish env now s"
| "handle env Resume s = (if completed (workout s) then handleResume env s else s)"
| "handle env SaveBack s = handleSaveBack s"
| "handle env ExitReport s = (if showReport s then handleExitReport s else s)"
| "handle env (Advance d) s = advance env d s"

text \<open>An unmounted component receives no events; its timers still run.\<close>

definition step :: "Env \<Rightarrow> event \<Rightarrow> Editor \<Rightarrow> Editor" where
  "step env e s =
     (if mounted s then handle env e s
      else case e of Advance d \<Rightarrow> advance env d s | _ \<Rightarrow> s)"

text \<open>
  Mounting the component on the route \<open>rid\<close> over the provider state \<open>g\<close>: the first
  render, in which every effect runs.
\<close>

definition mount :: "Env \<Rightarrow> string option \<Rightarrow> Gym \<Rightarrow> Editor" where
  "mount env rid g =
     commit env True True
       \<lparr>routeId = rid, mounted = True, workout = newDraft env (idCount g),
        showExModal = False, showReport = False, loadedIdRef = None,
        isHydratingRef = False, isDirtyRef = False, editSeqRef = 0,
        autosaveTimerRef = None, autosaveCleanup = False,
        gym = g\<lparr>idCount := idCount g + 1\<rparr>, timers = [], nextTimerId = 1, clock = 0\<rparr>"

inductive reachable :: "Env \<Rightarrow> Editor \<Rightarrow> bool" for env :: Env where
  reach_mount: "reachable env (mount env rid g)"
| reach_step: "reachable env s \<Longrightarrow> reachable env (step env e s)"

section \<open>useLongPress\<close>

text \<open>
  The hook's React state is \<open>startLongPress\<close>; \<open>timerRef\<close> and \<open>startPos\<close> are refs.
  \<open>invoked\<close> lists the calls of the two callbacks of the hook: \<open>OnLongPress\<close> for
  \<open>callback()\<close>, \<open>OnTap\<close> for \<open>onClick()\<close>. The timers carry no data: the only callback
  that the hook schedules is the long-press timeout. \<open>ms\<close> is the hold duration given to
  the hook.

  A handler of a pointer event runs with the values of the last render, and the render
  that its own call of \<open>setStartLongPress\<close> causes follows at once. The callback of the
  timeout runs outside of React's event handlers: a root that batches such updates
  renders its \<open>setStartLongPress(false)\<close> in a later task. \<open>renderPending\<close> holds from
  that call until the render; in between, \<open>startLongPress\<close> is still the value that the
  handlers of the last render see. A later call of \<open>setStartLongPress\<close> decides the
  state, so it ends the wait. Setting \<open>startLongPress\<close> to the value it has, with no
  update pending, causes no render.
\<close>

datatype lp_call = OnLongPress | OnTap

record LongPress =
  startLongPress :: bool
  renderPending :: bool
  timerRef :: "nat option"
  startPos :: "(real \<times> real) option"
  lp_timers :: "unit timer list"
  lp_nextTimerId :: nat
  lp_clock :: nat
  invoked :: "lp_call list"

text \<open>\<open>clearTimeout(timerRef.current)\<close>, where the ref may hold \<open>undefined\<close>.\<close>

definition lp_clear :: "LongPress \<Rightarrow> LongPress" where
  "lp_clear s =
     (case timerRef s of
        None \<Rightarrow> s
      | Some h \<Rightarrow> s\<lparr>lp_timers := clearTimeout h (lp_timers s)\<rparr>)"

text \<open>
  The effect (dependencies \<open>[startLongPress, callback, ms]\<close>): its body, and the render
  that runs the cleanup of the previous run and then the body.
\<close>

definition lp_effect :: "nat \<Rightarrow> LongPress \<Rightarrow> LongPress" where
  "lp_effect ms s =
     (if startLongPress s then
        s\<lparr>lp_timers := lp_timers s @ [(lp_nextTimerId s, lp_clock s + ms, ())],
          timerRef := Some (lp_nextTimerId s),
          lp_nextTimerId := Suc (lp_nextTimerId s)\<rparr>
      else lp_clear s)"

definition lp_commit :: "nat \<Rightarrow> LongPress \<Rightarrow> LongPress" where
  "lp_commit ms s = lp_effect ms (lp_clear s)"

definition cancel :: "nat \<Rightarrow> LongPress \<Rightarrow> LongPress" where
  "cancel ms s =
     (if startLongPress s then
        lp_commit ms (lp_clear (s\<lparr>startLongPress := False, renderPending := False\<rparr>))
      else s)"

definition lp_onPointerDown :: "nat \<Rightarrow> real \<times> real \<Rightarrow> LongPress \<Rightarrow> LongPress" where
  "lp_onPointerDown ms p s =
     (let s1 = s\<lparr>startPos := Some p\<rparr>
      in if startLongPress s1 then s1\<lparr>renderPending := False\<rparr>
         else lp_commit ms (s1\<lparr>startLongPress := True\<rparr>))"

definition lp_onPointerMove :: "nat \<Rightarrow> real \<times> real \<Rightarrow> LongPress \<Rightarrow> LongPress" where
  "lp_onPointerMove ms p s =
     (if startLongPress s then
        (case startPos s of
           None \<Rightarrow> s
         | Some sp \<Rightarrow>
             let moveX = \<bar>fst p - fst sp\<bar>; moveY = \<bar>snd p - snd sp\<bar>
             in if moveX > 10 \<or> moveY > 10 then cancel ms s else s)
      else s)"

definition lp_onPointerUp :: "nat \<Rightarrow> LongPress \<Rightarrow> LongPress" where
  "lp_onPointerUp ms s =
     (if startLongPress s then
        (let s1 =
               (case timerRef s of
                  None \<Rightarrow> s
                | Some h \<Rightarrow>
                    if h \<noteq> 0 then (lp_clear s)\<lparr>invoked := invoked s @ [OnTap]\<rparr> else s)
         in lp_commit ms
              (s1\<lparr>startLongPress := False, renderPending := False, startPos := None\<rparr>))
      else s\<lparr>startPos := None\<rparr>)"

definition lp_onPointerLeave :: "nat \<Rightarrow> LongPress \<Rightarrow> LongPress" where
  "lp_onPointerLeave ms s = cancel ms s"

text \<open>
  The callback of the timeout: \<open>haptic(10); callback(); setStartLongPress(false)\<close>. The
  callback leaves \<open>timerRef\<close> as it is.
\<close>

definition lp_timeout :: "LongPress \<Rightarrow> LongPress" where
  "lp_timeout s =
     (let s1 = s\<lparr>invoked := invoked s @ [OnLongPress]\<rparr>
      in if startLongPress s1 then s1\<lparr>renderPending := True\<rparr> else s1)"

text \<open>The render of a pending update.\<close>

definition lp_render :: "nat \<Rightarrow> LongPress \<Rightarrow> LongPress" where
  "lp_render ms s =
     (if renderPending s then
        (if startLongPress s then
           lp_commit ms (s\<lparr>startLongPress := False, renderPending := False\<rparr>)
         else s\<lparr>renderPending := False\<rparr>)
      else s)"

definition lp_fire :: "nat \<Rightarrow> LongPress \<Rightarrow> LongPress" where
  "lp_fire h s =
     (case find (\<lambda>t. fst t = h) (lp_timers s) of
        None \<Rightarrow> s
      | Some t \<Rightarrow> lp_timeout (s\<lparr>lp_timers := clearTimeout h (lp_timers s)\<rparr>))"

definition lp_advance :: "nat \<Rightarrow> LongPress \<Rightarrow> LongPress" where
  "lp_advance d s =
     (let s1 = s\<lparr>lp_clock := lp_clock s + d\<rparr>
      in fold lp_fire (map fst (dueTimers (lp_clock s1) (lp_timers s1))) s1)"

text \<open>
  \<open>Elapse d\<close>: \<open>d\<close> ms pass, the timers that are due run, and React renders before the
  next event. \<open>ElapseUnrendered d\<close>: the same, but the next event arrives before React
  has rendered. \<open>Render\<close>: React renders a pending update. \<open>Rerender\<close>: the host renders
  again with a new \<open>callback\<close> closure, so the effect runs again; the render takes a
  pending update with it.
\<close>

datatype lp_event =
    PointerDown "real \<times> real"
  | PointerMove "real \<times> real"
  | PointerUp
  | PointerLeave
  | Rerender
  | Render
  | Elapse nat
  | ElapseUnrendered nat

fun lp_step :: "nat \<Rightarrow> lp_event \<Rightarrow> LongPress \<Rightarrow> LongPress" where
  "lp_step ms (PointerDown p) s = lp_onPointerDown ms p s"
| "lp_step ms (PointerMove p) s = lp_onPointerMove ms p s"
| "lp_step ms PointerUp s = lp_onPointerUp ms s"
| "lp_step ms PointerLeave s = lp_onPointerLeave ms s"
| "lp_step ms Rerender s =
     lp_commit ms
       (s\<lparr>startLongPress := (startLongPress s \<and> \<not> renderPending s), renderPending := False\<rparr>)"
| "lp_step ms Render s = lp_render ms s"
| "lp_step ms (Elapse d) s = lp_render ms (lp_advance d s)"
| "lp_step ms (ElapseUnrendered d) s = lp_advance d s"

text \<open>The hook after its first render: the effect ran with \<open>startLongPress = false\<close>.\<close>

definition lp_mount :: LongPress where
  "lp_mount =
     \<lparr>startLongPress = False, renderPending = False, timerRef = None, startPos = None,
      lp_timers = [], lp_nextTimerId = 1, lp_clock = 0, invoked = []\<rparr>"

inductive lp_reachable :: "nat \<Rightarrow> LongPress \<Rightarrow> bool" for ms :: nat where
  lp_reach_mount: "lp_reachable ms lp_mount"
| lp_reach_step: "lp_reachable ms s \<Longrightarrow> lp_reachable ms (lp_step ms e s)"

section \<open>useSwipe\<close>

text \<open>
  The four callbacks are optional: \<open>SwipeCallbacks\<close> tells which ones the caller gave.
  \<open>swiped\<close> lists the callbacks invoked so far.
\<close>

datatype direction = SwipeUp | SwipeDown | SwipeLeft | SwipeRight

record SwipeCallbacks =
  onSwipeUp :: bool
  onSwipeDown :: bool
  onSwipeLeft :: bool
  onSwipeRight :: bool

record Swipe =
  touchStart :: "(real \<times> real) option"
  touchEnd :: "(real \<times> real) option"
  swiped :: "direction list"

definition minSwipeDistance :: real where
  "minSwipeDistance = 50"

definition swipe_onPointerDown :: "real \<times> real \<Rightarrow> Swipe \<Rightarrow> Swipe" where
  "swipe_onPointerDown p s = s\<lparr>touchEnd := None, touchStart := Some p\<rparr>"

definition swipe_onPointerMove :: "real \<times> real \<Rightarrow> Swipe \<Rightarrow> Swipe" where
  "swipe_onPointerMove p s = s\<lparr>touchEnd := Some p\<rparr>"

definition swipe_onPointerUp :: "SwipeCallbacks \<Rightarrow> Swipe \<Rightarrow> Swipe" where
  "swipe_onPointerUp cbs s =
     (case touchStart s of
        None \<Rightarrow> s
      | Some st \<Rightarrow>
          (case touchEnd s of
             None \<Rightarrow> s
           | Some en \<Rightarrow>
               let distanceX = fst st - fst en;
                   distanceY = snd st - snd en;
                   isHorizontal = \<bar>distanceX\<bar> > \<bar>distanceY\<bar>
               in if isHorizontal then
                    (if \<bar>distanceX\<bar> < minSwipeDistance then s
                     else
                       let s1 = (if distanceX > 0 \<and> onSwipeLeft cbs
                                 then s\<lparr>swiped := swiped s @ [SwipeLeft]\<rparr> else s)
                       in if distanceX < 0 \<and> onSwipeRight cbs
                          then s1\<lparr>swiped := swiped s1 @ [SwipeRight]\<rparr> else s1)
                  else
                    (if \<bar>distanceY\<bar> < minSwipeDistance then s
                     else
                       let s1 = (if distanceY > 0 \<and> onSwipeUp cbs
                                 then s\<lparr>swiped := swiped s @ [SwipeUp]\<rparr> else s)
                       in if distanceY < 0 \<and> onSwipeDown cbs
                          then s1\<lparr>swiped := swiped s1 @ [SwipeDown]\<rparr> else s1)))"

section \<open>SwipeableItem\<close>

text \<open>
  \<open>offsetXRef\<close> is the offset that the handlers read and write; the state \<open>offsetX\<close>, which
  an animation frame copies from it for display, is left out. \<open>now\<close> is the value of
  \<open>performance.now()\<close>.
\<close>

definition ACTION_WIDTH :: real where
  "ACTION_WIDTH = 128"

definition OPEN_THRESHOLD :: real where
  "OPEN_THRESHOLD = max 18 (ACTION_WIDTH * 0.18)"

definition VELOCITY_OPEN :: real where
  "VELOCITY_OPEN = 0.55"

datatype axis = AxisX | AxisY

record Swipeable =
  offsetXRef :: real
  isDragging :: bool
  lockedAxis :: "axis option"
  start :: "real \<times> real"
  startTime :: real
  baseOffset :: real

definition setOffset :: "real \<Rightarrow> Swipeable \<Rightarrow> Swipeable" where
  "setOffset x s =
     (let v = x;
          v = (if v > ACTION_WIDTH then ACTION_WIDTH + (v - ACTION_WIDTH) * 0.12 else v);
          v = (if v < - ACTION_WIDTH then - ACTION_WIDTH + (v + ACTION_WIDTH) * 0.12 else v);
          clamped = max (- ACTION_WIDTH) (min ACTION_WIDTH v)
      in s\<lparr>offsetXRef := clamped\<rparr>)"

definition close :: "Swipeable \<Rightarrow> Swipeable" where
  "close s = setOffset 0 s"

definition openLeft :: "Swipeable \<Rightarrow> Swipeable" where
  "openLeft s = setOffset (- ACTION_WIDTH) s"

definition openRight :: "Swipeable \<Rightarrow> Swipeable" where
  "openRight s = setOffset ACTION_WIDTH s"

definition handlePointerDown :: "real \<times> real \<Rightarrow> real \<Rightarrow> Swipeable \<Rightarrow> Swipeable" where
  "handlePointerDown p now s =
     s\<lparr>start := p, startTime := now, baseOffset := offsetXRef s,
       lockedAxis := None, isDragging := True\<rparr>"

text \<open>
  In \<open>handlePointerMove\<close> both tests of \<open>lockedAxis\<close> read the value of the current render:
  the move that locks the axis does not move the row yet.
\<close>

definition handlePointerMove :: "real \<times> real \<Rightarrow> Swipeable \<Rightarrow> Swipeable" where
  "handlePointerMove p s =
     (if \<not> isDragging s then s
      else
        let dx = fst p - fst (start s);
            dy = snd p - snd (start s)
        in case lockedAxis s of
             None \<Rightarrow>
               (let adx = \<bar>dx\<bar>; ady = \<bar>dy\<bar>
                in if adx < 6 \<and> ady < 6 then s
                   else if adx > ady * 1.2 then s\<lparr>lockedAxis := Some AxisX\<rparr>
                   else s\<lparr>lockedAxis := Some AxisY\<rparr>)
           | Some AxisX \<Rightarrow> setOffset (baseOffset s + dx * 1.25) s
           | Some AxisY \<Rightarrow> s)"

definition handlePointerUp :: "real \<Rightarrow> Swipeable \<Rightarrow> Swipeable" where
  "handlePointerUp now s =
     (if \<not> isDragging s then s
      else
        let s1 = s\<lparr>isDragging := False\<rparr>
        in if lockedAxis s \<noteq> Some AxisX then
             (if offsetXRef s1 \<noteq> 0 then close s1 else s1)\<lparr>lockedAxis := None\<rparr>
           else
             let x = offsetXRef s1;
                 dt = max 1 (now - startTime s1);
                 dx = x - baseOffset s1;
                 v = \<bar>dx\<bar> / dt;
                 s2 = (if x > OPEN_THRESHOLD \<or> (dx > 12 \<and> v > VELOCITY_OPEN) then openRight s1
                       else if x < - OPEN_THRESHOLD \<or> (dx < - 12 \<and> v > VELOCITY_OPEN)
                       then openLeft s1
                       else close s1)
             in s2\<lparr>lockedAxis := None\<rparr>)"

section \<open>Invariant of the editor\<close>

text \<open>
  \<open>timers_ok\<close>: the handles of the pending timers are positive, distinct and below the
  next handle. \<open>auto_ok\<close>: a pending autosave timer belongs to the mounted component, is
  the one that \<open>autosaveTimerRef\<close> names, has its cleanup registered, and holds the current
  \<open>workout\<close> and \<open>editSeqRef\<close>; the draft is then dirty, not hydrating and not empty.
  \<open>auto_weak\<close> is the part of it that survives the body of an event handler.
  \<open>settled\<close>: the hydration effect has nothing to do.
\<close>

definition isAuto :: "timer_cb timer \<Rightarrow> bool" where
  "isAuto t = (case snd (snd t) of AutosaveFlush w seq ws \<Rightarrow> True | ClearHydrating \<Rightarrow> False)"

definition noAuto :: "Editor \<Rightarrow> bool" where
  "noAuto s = (\<forall>t \<in> set (timers s). \<not> isAuto t)"

definition timers_ok :: "Editor \<Rightarrow> bool" where
  "timers_ok s =
     (0 < nextTimerId s \<and> (\<forall>t \<in> set (timers s). 0 < fst t \<and> fst t < nextTimerId s)
      \<and> distinct (map fst (timers s)))"

definition auto_weak :: "Editor \<Rightarrow> bool" where
  "auto_weak s =
     (\<forall>t \<in> set (timers s). isAuto t \<longrightarrow> autosaveCleanup s \<and> autosaveTimerRef s = Some (fst t))"

definition auto_ok :: "Editor \<Rightarrow> bool" where
  "auto_ok s =
     (\<forall>t \<in> set (timers s). isAuto t \<longrightarrow>
        mounted s \<and> autosaveCleanup s \<and> autosaveTimerRef s = Some (fst t)
        \<and> (\<exists>ws. snd (snd t) = AutosaveFlush (workout s) (editSeqRef s) ws)
        \<and> isDirtyRef s \<and> \<not> isHydratingRef s \<and> exercises (workout s) \<noteq> [])"

definition settled :: "Editor \<Rightarrow> bool" where
  "settled s =
     ((routeId s = Some ''new'' \<longrightarrow> loadedIdRef s = Some ''new'')
      \<and> (\<not> isDirtyRef s \<longrightarrow>
           (\<forall>rid. routeId s = Some rid \<longrightarrow> rid \<noteq> [] \<longrightarrow> rid \<noteq> ''new'' \<longrightarrow>
              loadedIdRef s \<noteq> Some rid \<longrightarrow>
              find (\<lambda>w. w_id w = rid) (workouts (gym s)) = None)))"

definition INV :: "Editor \<Rightarrow> bool" where
  "INV s = (timers_ok s \<and> auto_ok s \<and> (mounted s \<longrightarrow> settled s))"

section \<open>Bursts of edits\<close>

text \<open>
  The field edits are the local edits that only change the draft: those of the title and
  the note, of one field of a set, the adding and the deleting of a set and the removal
  of an exercise. (\<open>addExercise\<close> and \<open>toggleTimer\<close> also write to the store themselves.)
  A burst is a list of pairs \<open>(d, e)\<close>: \<open>d\<close> ms pass, then the edit \<open>e\<close> happens.
\<close>

fun isFieldEdit :: "event \<Rightarrow> bool" where
  "isFieldEdit (EditTitle v) = True"
| "isFieldEdit (EditNote v) = True"
| "isFieldEdit (RemoveExercise exId) = True"
| "isFieldEdit (UpdateSet exId setId fu) = True"
| "isFieldEdit (AddSet exId) = True"
| "isFieldEdit (DeleteSet exId setId) = True"
| "isFieldEdit e = False"

definition runBurst :: "Env \<Rightarrow> (nat \<times> event) list \<Rightarrow> Editor \<Rightarrow> Editor" where
  "runBurst env b s = fold (\<lambda>(d, e) s. step env e (step env (Advance d) s)) b s"

text \<open>The store call that the autosave makes for the draft \<open>w\<close> when its closure holds \<open>ws\<close>.\<close>

definition flushCall :: "Workout list \<Rightarrow> Workout \<Rightarrow> store_call" where
  "flushCall ws w =
     (if list_ex (\<lambda>existing. w_id existing = w_id w) ws then UpdateWorkout w else AddWorkout w)"

section \<open>Exercises and their sets\<close>

text \<open>
  \<open>setsOk w\<close>: every exercise of the workout \<open>w\<close> has at least one set. \<open>payloadOk\<close>: the
  workouts that a refresh delivers from outside have this property.
\<close>

definition setsOk :: "Workout \<Rightarrow> bool" where
  "setsOk w = list_all (\<lambda>ex. sets ex \<noteq> []) (exercises w)"

fun payloadOk :: "event \<Rightarrow> bool" where
  "payloadOk (Refresh ws) = list_all setsOk ws"
| "payloadOk e = True"

section \<open>Sessions of the long-press hook\<close>

text \<open>
  \<open>lp_inv\<close>: every pending timer of the hook is the one that \<open>timerRef\<close> names, and one
  is pending only while \<open>startLongPress\<close> is true; a render is pending only while
  \<open>startLongPress\<close> is true and no timer is left. \<open>rendered\<close>: the event is not a
  pointer-down, so it belongs to the session that the last pointer-down began, and it
  does not arrive between a timeout and its render. \<open>holdEvent p\<close>: an event of a hold
  at the point \<open>p\<close>, which is a move that stays within 10 px of \<open>p\<close> on both axes, or
  time passing; \<open>elapsed\<close> adds up the time that passes.
\<close>

definition lp_inv :: "LongPress \<Rightarrow> bool" where
  "lp_inv s =
     ((\<forall>t \<in> set (lp_timers s). startLongPress s \<and> timerRef s = Some (fst t))
      \<and> (renderPending s \<longrightarrow> startLongPress s \<and> lp_timers s = []))"

fun rendered :: "lp_event \<Rightarrow> bool" where
  "rendered (PointerDown p) = False"
| "rendered (ElapseUnrendered d) = False"
| "rendered e = True"

fun holdEvent :: "real \<times> real \<Rightarrow> lp_event \<Rightarrow> bool" where
  "holdEvent p (PointerMove q) = (\<bar>fst q - fst p\<bar> \<le> 10 \<and> \<bar>snd q - snd p\<bar> \<le> 10)"
| "holdEvent p (Elapse d) = True"
| "holdEvent p e = False"

fun elapsed :: "lp_event list \<Rightarrow> nat" where
  "elapsed [] = 0"
| "elapsed (Elapse d # es) = d + elapsed es"
| "elapsed (e # es) = elapsed es"

section \<open>Concrete values\<close>

text \<open>
  An environment whose \<open>n\<close>-th generated id is a string of \<open>n + 1\<close> letters, a store
  without workouts, a store that holds the workout \<open>wkA\<close>, and a different payload
  \<open>wkB\<close> for the same identity.
\<close>

definition env0 :: Env where
  "env0 = \<lparr>generateId = (\<lambda>n. replicate (Suc n) CHR ''g''), today = ''2024-05-01''\<rparr>"

definition gymEmpty :: Gym where
  "gymEmpty = \<lparr>user = True, workouts = [], remote = [], calls = [], idCount = 0\<rparr>"

definition wkA :: Workout where
  "wkA = \<lparr>w_id = ''a'', date = ''2024-04-30'', title = ''Push'', w_note = '''',
          exercises = [\<lparr>ex_id = ''e1'', defId = ''1'',
                        sets = [\<lparr>s_id = ''s1'', weight = 60, reps = 5, s_completed = True\<rparr>]\<rparr>],
          completed = False, elapsedSeconds = 0, startTimestamp = None\<rparr>"

definition wkB :: Workout where
  "wkB = wkA\<lparr>title := ''Remote''\<rparr>"

definition gymA :: Gym where
  "gymA = \<lparr>user = True, workouts = [wkA], remote = [], calls = [], idCount = 0\<rparr>"

text \<open>The editor opened on \<open>wkA\<close>, after the title was edited.\<close>

definition sDirty :: Editor where
  "sDirty = step env0 (EditTitle ''Legs'') (mount env0 (Some ''a'') gymA)"

text \<open>An editor on the route of \<open>wkA\<close> that has not loaded it yet.\<close>

definition sUnloaded :: Editor where
  "sUnloaded = (mount env0 (Some ''a'') gymEmpty)\<lparr>gym := gymA\<rparr>"

text \<open>A fresh draft on the route \<open>new\<close>.\<close>

definition sNew :: Editor where
  "sNew = mount env0 (Some ''new'') gymEmpty"

text \<open>The editor opened on \<open>wkA\<close>, after its only exercise was removed.\<close>

definition sEmptied :: Editor where
  "sEmptied = step env0 (RemoveExercise ''e1'') (mount env0 (Some ''a'') gymA)"

text \<open>The editor opened on \<open>wkA\<close>, with the timer started at time \<open>1000\<close>.\<close>

definition sRun :: Editor where
  "sRun = step env0 (ToggleTimer 1000) (mount env0 (Some ''a'') gymA)"

text \<open>The editor opened on a completed workout.\<close>

definition wkDone :: Workout where
  "wkDone = wkA\<lparr>w_id := ''c'', completed := True, elapsedSeconds := 8\<rparr>"

definition gymDone :: Gym where
  "gymDone = \<lparr>user = True, workouts = [wkDone], remote = [], calls = [], idCount = 0\<rparr>"

definition sDone :: Editor where
  "sDone = mount env0 (Some ''c'') gymDone"

text \<open>The editor opened on \<open>wkA\<close>, right after the hydration.\<close>

definition sHydrated :: Editor where
  "sHydrated = mount env0 (Some ''a'') gymA"

text \<open>An editor on the route of \<open>wkA\<close>, mounted before the store holds it.\<close>

definition sWaiting :: Editor where
  "sWaiting = mount env0 (Some ''a'') gymEmpty"

text \<open>A fresh draft on the route \<open>new\<close>, one ms after mounting.\<close>

definition sFresh :: Editor where
  "sFresh = step env0 (Advance 1) sNew"

text \<open>
  The editor opened on \<open>wkA\<close>, one ms after mounting; the same after an edit of the
  title, when the autosave timer with handle \<open>2\<close> is pending; and a state in which
  \<open>editSeqRef\<close> has moved on since that timer was scheduled.
\<close>

definition sIdle :: Editor where
  "sIdle = step env0 (Advance 1) sHydrated"

definition sPending :: Editor where
  "sPending = step env0 (EditTitle ''Legs'') sIdle"

definition sStale :: Editor where
  "sStale = sPending\<lparr>editSeqRef := 5\<rparr>"

text \<open>
  The callbacks that the dashboard gives to \<open>useSwipe\<close> (up and down only), all four
  callbacks, and a drag from \<open>(100, 50)\<close> to \<open>(180, 45)\<close>: \<open>dx = -80\<close>, \<open>dy = 5\<close>.
\<close>

definition dashboardCallbacks :: SwipeCallbacks where
  "dashboardCallbacks =
     \<lparr>onSwipeUp = True, onSwipeDown = True, onSwipeLeft = False, onSwipeRight = False\<rparr>"

definition allCallbacks :: SwipeCallbacks where
  "allCallbacks =
     \<lparr>onSwipeUp = True, onSwipeDown = True, onSwipeLeft = True, onSwipeRight = True\<rparr>"

definition dragRight :: Swipe where
  "dragRight =
     swipe_onPointerMove (180, 45)
       (swipe_onPointerDown (100, 50) \<lparr>touchStart = None, touchEnd = None, swiped = []\<rparr>)"

text \<open>
  A row that shows its right action (offset \<open>128\<close>), and the same row during a quick
  drag to the left: pointer-down at time \<open>0\<close>, a move that locks the axis, a move to
  16 px left of the start.
\<close>

definition rowOpen :: Swipeable where
  "rowOpen =
     \<lparr>offsetXRef = 128, isDragging = False, lockedAxis = None, start = (0, 0),
      startTime = 0, baseOffset = 0\<rparr>"

definition rowFlicked :: Swipeable where
  "rowFlicked =
     handlePointerMove (84, 0) (handlePointerMove (90, 0) (handlePointerDown (100, 0) 0 rowOpen))"

text \<open>A closed row dragged to the offsets \<open>OPEN_THRESHOLD + 1\<close> and \<open>OPEN_THRESHOLD - 1\<close>.\<close>

definition rowAbove :: Swipeable where
  "rowAbove =
     \<lparr>offsetXRef = OPEN_THRESHOLD + 1, isDragging = True, lockedAxis = Some AxisX,
      start = (0, 0), startTime = 0, baseOffset = 0\<rparr>"

definition rowBelow :: Swipeable where
  "rowBelow =
     \<lparr>offsetXRef = OPEN_THRESHOLD - 1, isDragging = True, lockedAxis = Some AxisX,
      start = (0, 0), startTime = 0, baseOffset = 0\<rparr>"

section \<open>The invariant holds in every reachable state of the editor\<close>

lemma clearIfSet_subset: "set (clearIfSet r ts) \<subseteq> set ts"
  by (auto simp: clearIfSet_def clearTimeout_def split: option.splits)

lemma clearTimeout_subset: "set (clearTimeout h ts) \<subseteq> set ts"
  by (auto simp: clearTimeout_def)

lemma distinct_clearTimeout: "distinct (map fst ts) \<Longrightarrow> distinct (map fst (clearTimeout h ts))"
  by (simp add: clearTimeout_def distinct_map_filter)

lemma distinct_clearIfSet: "distinct (map fst ts) \<Longrightarrow> distinct (map fst (clearIfSet r ts))"
  by (simp add: clearIfSet_def distinct_clearTimeout split: option.splits)

lemma cleanup_noAuto:
  assumes "timers_ok s" "auto_weak s"
  shows "noAuto (autosave_cleanup s)"
  using assms
  by (fastforce simp: noAuto_def timers_ok_def auto_weak_def autosave_cleanup_def clearIfSet_def
        clearTimeout_def split: option.splits if_splits)

lemma cleanup_timers_ok: "timers_ok s \<Longrightarrow> timers_ok (autosave_cleanup s)"
  using clearIfSet_subset[of "autosaveTimerRef s" "timers s"]
  by (auto simp: timers_ok_def autosave_cleanup_def distinct_clearIfSet)

lemma cleanup_fields [simp]:
  "mounted (autosave_cleanup s) = mounted s"
  "routeId (autosave_cleanup s) = routeId s"
  "workout (autosave_cleanup s) = workout s"
  "loadedIdRef (autosave_cleanup s) = loadedIdRef s"
  "isHydratingRef (autosave_cleanup s) = isHydratingRef s"
  "isDirtyRef (autosave_cleanup s) = isDirtyRef s"
  "editSeqRef (autosave_cleanup s) = editSeqRef s"
  "gym (autosave_cleanup s) = gym s"
  "clock (autosave_cleanup s) = clock s"
  "showReport (autosave_cleanup s) = showReport s"
  "showExModal (autosave_cleanup s) = showExModal s"
  "nextTimerId (autosave_cleanup s) = nextTimerId s"
  "autosaveTimerRef (autosave_cleanup s) = autosaveTimerRef s"
  "autosaveCleanup (autosave_cleanup s) = autosaveCleanup s"
  by (simp_all add: autosave_cleanup_def)

lemma effect_fields [simp]:
  "mounted (autosave_effect s) = mounted s"
  "routeId (autosave_effect s) = routeId s"
  "workout (autosave_effect s) = workout s"
  "loadedIdRef (autosave_effect s) = loadedIdRef s"
  "isHydratingRef (autosave_effect s) = isHydratingRef s"
  "isDirtyRef (autosave_effect s) = isDirtyRef s"
  "editSeqRef (autosave_effect s) = editSeqRef s"
  "gym (autosave_effect s) = gym s"
  "clock (autosave_effect s) = clock s"
  "showReport (autosave_effect s) = showReport s"
  "showExModal (autosave_effect s) = showExModal s"
  by (simp_all add: autosave_effect_def setTimeout_def)

lemma effect_timers_ok: "timers_ok s \<Longrightarrow> timers_ok (autosave_effect s)"
  using clearIfSet_subset[of "autosaveTimerRef s" "timers s"]
  by (fastforce simp: timers_ok_def autosave_effect_def setTimeout_def distinct_clearIfSet)

lemma effect_auto_ok:
  assumes "noAuto s" "mounted s"
  shows "auto_ok (autosave_effect s)"
  using assms clearIfSet_subset[of "autosaveTimerRef s" "timers s"]
  by (auto simp: noAuto_def auto_ok_def autosave_effect_def setTimeout_def isAuto_def)

lemma settled_cong:
  assumes "routeId t = routeId s" "loadedIdRef t = loadedIdRef s"
    "isDirtyRef t = isDirtyRef s" "workouts (gym t) = workouts (gym s)"
  shows "settled t = settled s"
  using assms by (simp add: settled_def)

lemma hyd_settled: "settled s \<Longrightarrow> hydration_effect env s = (s, None)"
  by (auto simp: settled_def hydration_effect_def split: option.splits)

lemma hyd_result_settled: "settled (fst (hydration_effect env s))"
  by (auto simp: settled_def hydration_effect_def setTimeout_def split: option.splits)

lemma hyd_None: "snd (hydration_effect env s) = None \<Longrightarrow> fst (hydration_effect env s) = s"
  by (auto simp: hydration_effect_def split: option.splits if_splits)

lemma hyd_timers_ok: "timers_ok s \<Longrightarrow> timers_ok (fst (hydration_effect env s))"
  by (fastforce simp: timers_ok_def hydration_effect_def setTimeout_def split: option.splits)

lemma hyd_noAuto: "noAuto s \<Longrightarrow> noAuto (fst (hydration_effect env s))"
  by (auto simp: noAuto_def hydration_effect_def setTimeout_def isAuto_def split: option.splits)

lemma hyd_auto_weak: "auto_weak s \<Longrightarrow> auto_weak (fst (hydration_effect env s))"
  by (auto simp: auto_weak_def hydration_effect_def setTimeout_def isAuto_def split: option.splits)

lemma hyd_fields [simp]:
  "mounted (fst (hydration_effect env s)) = mounted s"
  "routeId (fst (hydration_effect env s)) = routeId s"
  "workout (fst (hydration_effect env s)) = workout s"
  "editSeqRef (fst (hydration_effect env s)) = editSeqRef s"
  "clock (fst (hydration_effect env s)) = clock s"
  "autosaveTimerRef (fst (hydration_effect env s)) = autosaveTimerRef s"
  "autosaveCleanup (fst (hydration_effect env s)) = autosaveCleanup s"
  "showReport (fst (hydration_effect env s)) = showReport s"
  "showExModal (fst (hydration_effect env s)) = showExModal s"
  "workouts (gym (fst (hydration_effect env s))) = workouts (gym s)"
  "calls (gym (fst (hydration_effect env s))) = calls (gym s)"
  "remote (gym (fst (hydration_effect env s))) = remote (gym s)"
  "user (gym (fst (hydration_effect env s))) = user (gym s)"
  by (simp_all add: hydration_effect_def setTimeout_def split: option.splits)

lemma hyd_Some_hydrating:
  "snd (hydration_effect env s) = Some w \<Longrightarrow> isHydratingRef (fst (hydration_effect env s))
     \<and> \<not> isDirtyRef (fst (hydration_effect env s))"
  by (auto simp: hydration_effect_def setTimeout_def split: option.splits if_splits)

lemma commit_alt:
  "commit env wsChanged wChanged s =
     (let s1 = (if wChanged then autosave_cleanup s else s);
          s2 = (if wsChanged then fst (hydration_effect env s1) else s1);
          q = (if wsChanged then snd (hydration_effect env s1) else None);
          s3 = (if wChanged then autosave_effect s2 else s2)
      in case q of
           None \<Rightarrow> s3
         | Some w \<Rightarrow> autosave_effect (autosave_cleanup (s3\<lparr>workout := w\<rparr>)))"
  by (cases wsChanged; cases wChanged) (simp_all add: commit_def Let_def case_prod_beta)

lemma auto_ok_weak: "auto_ok s \<Longrightarrow> auto_weak s"
  by (auto simp: auto_ok_def auto_weak_def)

lemma noAuto_auto_ok: "noAuto s \<Longrightarrow> auto_ok s"
  by (auto simp: auto_ok_def noAuto_def)

lemma timers_ok_workout [simp]: "timers_ok (s\<lparr>workout := w\<rparr>) = timers_ok s"
  by (simp add: timers_ok_def)
lemma auto_weak_workout [simp]: "auto_weak (s\<lparr>workout := w\<rparr>) = auto_weak s"
  by (simp add: auto_weak_def)
lemma settled_workout [simp]: "settled (s\<lparr>workout := w\<rparr>) = settled s"
  by (simp add: settled_def)

lemma settled_cleanup [simp]: "settled (autosave_cleanup s) = settled s"
  by (rule settled_cong) simp_all
lemma settled_effect [simp]: "settled (autosave_effect s) = settled s"
  by (rule settled_cong) simp_all

lemma commit_inv:
  assumes "mounted s" "timers_ok s" "auto_weak s"
    "\<not> wChanged \<Longrightarrow> auto_ok s" "\<not> wsChanged \<Longrightarrow> settled s"
  shows "INV (commit env wsChanged wChanged s)"
proof -
  define s1 where "s1 = (if wChanged then autosave_cleanup s else s)"
  define s2 where "s2 = (if wsChanged then fst (hydration_effect env s1) else s1)"
  define q where "q = (if wsChanged then snd (hydration_effect env s1) else None)"
  define s3 where "s3 = (if wChanged then autosave_effect s2 else s2)"
  have c: "commit env wsChanged wChanged s =
      (case q of None \<Rightarrow> s3 | Some w \<Rightarrow> autosave_effect (autosave_cleanup (s3\<lparr>workout := w\<rparr>)))"
    unfolding commit_alt s1_def s2_def q_def s3_def Let_def by simp
  have m1: "mounted s1" and t1: "timers_ok s1" and w1: "auto_weak s1"
    using assms(1-3) cleanup_timers_ok cleanup_noAuto noAuto_auto_ok auto_ok_weak
    by (auto simp: s1_def)
  have n1: "wChanged \<Longrightarrow> noAuto s1"
    using assms(2,3) by (simp add: s1_def cleanup_noAuto)
  have m2: "mounted s2" and t2: "timers_ok s2" and w2: "auto_weak s2"
    using m1 t1 w1 by (auto simp: s2_def hyd_timers_ok hyd_auto_weak)
  have n2: "wChanged \<Longrightarrow> noAuto s2"
    using n1 by (auto simp: s2_def hyd_noAuto)
  have st2: "settled s2"
    using assms(5) by (auto simp: s2_def s1_def hyd_result_settled)
  have m3: "mounted s3" and t3: "timers_ok s3" and st3: "settled s3"
    using m2 t2 st2 by (auto simp: s3_def effect_timers_ok)
  show ?thesis
  proof (cases q)
    case None
    have "auto_ok s3"
    proof (cases wChanged)
      case True
      then show ?thesis using n2 m2 by (simp add: s3_def effect_auto_ok)
    next
      case False
      then have "s2 = s" using None hyd_None[of env s1] 
        by (auto simp: s2_def q_def s1_def split: if_splits)
      then show ?thesis using False assms(4) by (simp add: s3_def)
    qed
    then show ?thesis using None c t3 st3 by (simp add: INV_def)
  next
    case (Some w)
    have w3: "auto_weak s3"
    proof (cases wChanged)
      case True
      then show ?thesis using n2 m2 effect_auto_ok[of s2] auto_ok_weak by (simp add: s3_def)
    next
      case False
      then show ?thesis using w2 by (simp add: s3_def)
    qed
    let ?s4 = "autosave_cleanup (s3\<lparr>workout := w\<rparr>)"
    have n4: "noAuto ?s4" using t3 w3 by (simp add: cleanup_noAuto)
    have t4: "timers_ok ?s4" using t3 by (simp add: cleanup_timers_ok)
    have "auto_ok (autosave_effect ?s4)" using n4 m3 by (simp add: effect_auto_ok)
    moreover have "timers_ok (autosave_effect ?s4)" using t4 by (rule effect_timers_ok)
    moreover have "settled (autosave_effect ?s4)" using st3 by simp
    ultimately show ?thesis using Some c by (simp add: INV_def)
  qed
qed

lemma timers_ok_cong:
  "timers t = timers s \<Longrightarrow> nextTimerId t = nextTimerId s \<Longrightarrow> timers_ok t = timers_ok s"
  by (simp add: timers_ok_def)

lemma auto_weak_cong:
  "timers t = timers s \<Longrightarrow> autosaveCleanup t = autosaveCleanup s \<Longrightarrow>
   autosaveTimerRef t = autosaveTimerRef s \<Longrightarrow> auto_weak t = auto_weak s"
  by (simp add: auto_weak_def)

lemma noAuto_cong: "timers t = timers s \<Longrightarrow> noAuto t = noAuto s"
  by (simp add: noAuto_def)

lemma auto_ok_cong:
  "timers t = timers s \<Longrightarrow> autosaveCleanup t = autosaveCleanup s \<Longrightarrow>
   autosaveTimerRef t = autosaveTimerRef s \<Longrightarrow> mounted t = mounted s \<Longrightarrow>
   workout t = workout s \<Longrightarrow> editSeqRef t = editSeqRef s \<Longrightarrow>
   isDirtyRef t = isDirtyRef s \<Longrightarrow> isHydratingRef t = isHydratingRef s \<Longrightarrow>
   auto_ok t = auto_ok s"
  by (simp add: auto_ok_def)

lemma settled_dirty:
  "settled s \<Longrightarrow> routeId t = routeId s \<Longrightarrow> loadedIdRef t = loadedIdRef s \<Longrightarrow>
   isDirtyRef t \<Longrightarrow> settled t"
  by (simp add: settled_def)

lemma unmount_inv:
  assumes "timers_ok s" "auto_weak s"
  shows "INV (unmount s)" and "noAuto (unmount s)"
proof -
  have n: "noAuto (autosave_cleanup s)" using assms by (rule cleanup_noAuto)
  then show "noAuto (unmount s)" by (simp add: unmount_def noAuto_def)
  then have "auto_ok (unmount s)" by (rule noAuto_auto_ok)
  moreover have "timers_ok (unmount s)"
    using cleanup_timers_ok[OF assms(1)] by (simp add: unmount_def timers_ok_def)
  ultimately show "INV (unmount s)" by (simp add: INV_def unmount_def)
qed

lemma localEdit_inv:
  assumes "INV s" "mounted s"
  shows "INV (localEdit env u s)"
  unfolding localEdit_def
proof (rule commit_inv)
  let ?t = "(markDirty s)\<lparr>workout := u\<rparr>"
  show "mounted ?t" using assms by (simp add: markDirty_def)
  show "timers_ok ?t" using assms by (simp add: INV_def timers_ok_def markDirty_def)
  show "auto_weak ?t" using assms auto_ok_weak[of s] by (simp add: INV_def auto_weak_def markDirty_def)
  show "settled ?t" using assms by (auto simp: INV_def settled_def markDirty_def)
qed simp

lemma INV_gym:
  "workouts g = workouts (gym s) \<Longrightarrow> INV (s\<lparr>gym := g\<rparr>) = INV s"
  by (simp add: INV_def timers_ok_def auto_ok_def settled_def)

lemma saved_inv:
  assumes "INV s" "mounted s"
    "timers t = timers s" "nextTimerId t = nextTimerId s"
    "autosaveCleanup t = autosaveCleanup s" "autosaveTimerRef t = autosaveTimerRef s"
    "mounted t = mounted s"
  shows "INV (commit env True True t)"
proof (rule commit_inv)
  show "mounted t" using assms by simp
  show "timers_ok t" using assms timers_ok_cong[of t s] by (simp add: INV_def)
  show "auto_weak t" using assms auto_weak_cong[of t s] auto_ok_weak[of s] by (simp add: INV_def)
qed simp_all

lemma saved_unmount_inv:
  assumes "INV s"
    "timers t = timers s" "nextTimerId t = nextTimerId s"
    "autosaveCleanup t = autosaveCleanup s" "autosaveTimerRef t = autosaveTimerRef s"
  shows "INV (unmount t)"
proof (rule unmount_inv)
  show "timers_ok t" using assms timers_ok_cong[of t s] by (simp add: INV_def)
  show "auto_weak t" using assms auto_weak_cong[of t s] auto_ok_weak[of s] by (simp add: INV_def)
qed

lemma refresh_inv:
  assumes "INV s" "mounted s"
    "timers t = timers s" "nextTimerId t = nextTimerId s"
    "autosaveCleanup t = autosaveCleanup s" "autosaveTimerRef t = autosaveTimerRef s"
    "mounted t = mounted s" "workout t = workout s" "editSeqRef t = editSeqRef s"
    "isDirtyRef t = isDirtyRef s" "isHydratingRef t = isHydratingRef s"
  shows "INV (commit env True False t)"
proof (rule commit_inv)
  show "mounted t" using assms by simp
  show "timers_ok t" using assms timers_ok_cong[of t s] by (simp add: INV_def)
  show "auto_ok t" using assms auto_ok_cong[of t s] by (simp add: INV_def)
  then show "auto_weak t" by (rule auto_ok_weak)
qed simp

lemma handle_inv:
  assumes "INV s" "mounted s"
  shows "INV (handle env e s) \<or> (\<exists>d. e = Advance d)"
proof (cases e)
  case (SetRoute r)
  then show ?thesis using refresh_inv[OF assms, of "s\<lparr>routeId := r\<rparr>"] by simp
next
  case (Refresh ws)
  then show ?thesis
    using refresh_inv[OF assms, of "s\<lparr>gym := (gym s)\<lparr>workouts := ws\<rparr>\<rparr>"] by simp
next
  case (EditTitle v)
  then show ?thesis using assms by (simp add: editTitle_def localEdit_inv)
next
  case (EditNote v)
  then show ?thesis using assms by (simp add: editNote_def localEdit_inv)
next
  case (RemoveExercise x)
  then show ?thesis using assms by (simp add: removeExercise_def localEdit_inv)
next
  case (UpdateSet x y f)
  then show ?thesis using assms by (simp add: updateSet_def localEdit_inv)
next
  case (AddSet x)
  then show ?thesis using assms
    by (simp add: addSet_def localEdit_inv INV_gym split: prod.splits)
next
  case (DeleteSet x y)
  then show ?thesis using assms
    by (simp add: deleteSet_def localEdit_inv INV_gym split: prod.splits)
next
  case (AddExercise d)
  then show ?thesis using assms
    by (simp add: addExercise_def Let_def markDirty_def saved_inv)
next
  case (ToggleTimer now)
  then show ?thesis using assms localEdit_inv[OF assms, of env "toggled now (workout s)"]
    by (simp add: toggleTimer_def Let_def markDirty_def saved_inv localEdit_def)
next
  case (Finish now)
  then show ?thesis using assms
    by (simp add: handleFinish_def Let_def saved_inv saved_unmount_inv)
next
  case Resume
  then show ?thesis using assms by (simp add: handleResume_def Let_def saved_inv)
next
  case SaveBack
  then show ?thesis using assms by (simp add: handleSaveBack_def saved_unmount_inv)
next
  case ExitReport
  then show ?thesis using assms by (simp add: handleExitReport_def saved_unmount_inv)
next
  case (Advance d)
  then show ?thesis by simp
qed

lemma find_Some_set: "find P xs = Some x \<Longrightarrow> x \<in> set xs \<and> P x"
  by (induction xs) (auto split: if_splits)

lemma fire_inv:
  assumes "INV s"
  shows "INV (fire env h s)"
proof (cases "find (\<lambda>t. fst t = h) (timers s)")
  case None
  then show ?thesis using assms by (simp add: fire_def)
next
  case (Some t)
  then have tin: "t \<in> set (timers s)" and th: "fst t = h"
    using find_Some_set[of "\<lambda>t. fst t = h" "timers s" t] by auto
  let ?s1 = "s\<lparr>timers := clearTimeout h (timers s)\<rparr>"
  have t1: "timers_ok ?s1"
    using assms clearTimeout_subset[of h "timers s"]
    by (auto simp: INV_def timers_ok_def distinct_clearTimeout)
  show ?thesis
  proof (cases "snd (snd t)")
    case ClearHydrating
    have "auto_ok (?s1\<lparr>isHydratingRef := False\<rparr>)"
      using assms clearTimeout_subset[of h "timers s"]
      by (auto simp: INV_def auto_ok_def)
    moreover have "timers_ok (?s1\<lparr>isHydratingRef := False\<rparr>)"
      using t1 by (simp add: timers_ok_def)
    moreover have "mounted s \<longrightarrow> settled (?s1\<lparr>isHydratingRef := False\<rparr>)"
      using assms by (simp add: INV_def settled_def)
    ultimately show ?thesis using Some ClearHydrating by (simp add: fire_def INV_def)
  next
    case (AutosaveFlush w seq ws)
    then have a: "isAuto t" by (simp add: isAuto_def)
    then have m: "mounted s" and r: "autosaveTimerRef s = Some h"
      using assms tin th by (auto simp: INV_def auto_ok_def)
    have n1: "noAuto ?s1"
      using assms r by (auto simp: INV_def auto_ok_def noAuto_def clearTimeout_def)
    let ?s2 = "?s1\<lparr>gym := saveWorkoutToContext ws w (gym ?s1)\<rparr>"
    let ?s3 = "(if seq = editSeqRef ?s2 then ?s2\<lparr>isDirtyRef := False\<rparr> else ?s2)"
    have n3: "noAuto ?s3" using n1 by (simp add: noAuto_def)
    have t3: "timers_ok ?s3" using t1 by (simp add: timers_ok_def)
    have m3: "mounted ?s3" using m by simp
    have "INV (commit env True False ?s3)"
      using m3 t3 n3 by (intro commit_inv noAuto_auto_ok auto_ok_weak) auto
    then show ?thesis using Some AutosaveFlush m3 by (simp add: fire_def Let_def)
  qed
qed

lemma fold_fire_inv: "INV s \<Longrightarrow> INV (fold (fire env) hs s)"
  by (induction hs arbitrary: s) (simp_all add: fire_inv)

lemma INV_clock [simp]: "INV (s\<lparr>clock := c\<rparr>) = INV s"
  by (simp add: INV_def timers_ok_def auto_ok_def settled_def)

lemma advance_inv: "INV s \<Longrightarrow> INV (advance env d s)"
  by (simp add: advance_def Let_def fold_fire_inv)

lemma step_inv: "INV s \<Longrightarrow> INV (step env e s)"
  using handle_inv[of s env e] by (cases e) (auto simp: step_def advance_inv)

lemma mount_inv: "INV (mount env rid g)"
  unfolding mount_def
  by (rule commit_inv) (simp_all add: timers_ok_def auto_weak_def)

lemma reachable_INV: "reachable env s \<Longrightarrow> INV s"
  by (induction rule: reachable.induct) (simp_all add: mount_inv step_inv)

lemma gym_commit [simp]:
  "calls (gym (commit env a b s)) = calls (gym s)"
  "remote (gym (commit env a b s)) = remote (gym s)"
  "workouts (gym (commit env a b s)) = workouts (gym s)"
  "user (gym (commit env a b s)) = user (gym s)"
  by (simp_all add: commit_alt Let_def split: option.splits)

lemma mounted_commit [simp]: "mounted (commit env a b s) = mounted s"
  by (simp add: commit_alt Let_def split: option.splits)

lemma guard_noAuto:
  assumes "INV s" "isHydratingRef s \<or> \<not> isDirtyRef s \<or> exercises (workout s) = []"
  shows "noAuto s"
  using assms by (auto simp: INV_def auto_ok_def noAuto_def)

section \<open>What a render changes\<close>

lemma find_None_list_ex: "(find P xs = None) = (\<not> list_ex P xs)"
  by (induction xs) auto

lemma commit_settled:
  "settled s \<Longrightarrow> commit env True b s = commit env False b s"
  by (simp add: commit_def Let_def hyd_settled)

lemma commit_FF [simp]: "commit env False False s = s"
  by (simp add: commit_def)

lemma filter_neq_id: "\<not> list_ex P xs \<Longrightarrow> filter (\<lambda>x. \<not> P x) xs = xs"
  by (induction xs) auto

lemma workout_commit_local [simp]: "workout (commit env False b s) = workout s"
  by (simp add: commit_def Let_def)

lemma find_map_replace_None:
  "find (\<lambda>w. w_id w = rid) ws = None \<Longrightarrow> w_id u \<noteq> rid \<Longrightarrow>
   find (\<lambda>w. w_id w = rid) (map (\<lambda>w. if w_id w = w_id u then u else w) ws) = None"
  by (induction ws) (auto split: if_splits)

lemma find_snoc:
  "find P (xs @ [y]) = (case find P xs of Some x \<Rightarrow> Some x | None \<Rightarrow> if P y then Some y else None)"
  by (induction xs) auto

lemma find_after_save:
  assumes "find (\<lambda>w. w_id w = rid) (workouts g) = None"
  shows "find (\<lambda>w. w_id w = rid) (workouts (saveWorkoutToContext (workouts g) u g)) = None
       \<or> find (\<lambda>w. w_id w = rid) (workouts (saveWorkoutToContext (workouts g) u g)) = Some u"
proof (cases "list_ex (\<lambda>e. w_id e = w_id u) (workouts g)")
  case True
  then have "w_id u \<noteq> rid" using assms by (auto simp: find_None_list_ex)
  then show ?thesis using True assms
    by (simp add: saveWorkoutToContext_def updateWorkout_def find_map_replace_None)
next
  case False
  then show ?thesis using assms
    by (simp add: saveWorkoutToContext_def addWorkout_def find_snoc)
qed

lemma hyd_after_save:
  assumes "settled s" "routeId t = routeId s" "loadedIdRef t = loadedIdRef s"
    "isDirtyRef t = isDirtyRef s"
    "workouts (gym t) = workouts (saveWorkoutToContext (workouts (gym s)) u (gym s))"
  shows "snd (hydration_effect env t) = None \<or> snd (hydration_effect env t) = Some u"
proof (cases "snd (hydration_effect env t)")
  case None
  then show ?thesis by simp
next
  case (Some w)
  then obtain rid where r: "routeId t = Some rid" "rid \<noteq> []"
    by (auto simp: hydration_effect_def split: option.splits if_splits)
  have nn: "rid \<noteq> ''new''"
    using Some r assms(1-3) by (auto simp: hydration_effect_def settled_def split: option.splits if_splits)
  have c: "loadedIdRef t \<noteq> Some rid" "\<not> isDirtyRef t"
    "find (\<lambda>x. w_id x = rid) (workouts (gym t)) = Some w"
    using Some r nn by (auto simp: hydration_effect_def split: option.splits if_splits)
  have "find (\<lambda>w. w_id w = rid) (workouts (gym s)) = None"
    using assms(1-4) r nn c by (simp add: settled_def)
  from find_after_save[OF this, of u] c(3) assms(5) have "w = u" by auto
  then show ?thesis using Some by simp
qed

lemma workout_commit_saved:
  assumes "snd (hydration_effect env (autosave_cleanup t)) = None
         \<or> snd (hydration_effect env (autosave_cleanup t)) = Some (workout t)"
  shows "workout (commit env True True t) = workout t"
  using assms by (auto simp: commit_alt Let_def)

lemma workout_saved:
  assumes "reachable env s" "mounted s"
    "routeId t = routeId s" "loadedIdRef t = loadedIdRef s" "isDirtyRef t = isDirtyRef s"
    "workouts (gym t) = workouts (saveWorkoutToContext (workouts (gym s)) (workout t) (gym s))"
  shows "workout (commit env True True t) = workout t"
proof (rule workout_commit_saved)
  have "settled s" using assms(1,2) reachable_INV[of env s] by (simp add: INV_def)
  then show "snd (hydration_effect env (autosave_cleanup t)) = None
         \<or> snd (hydration_effect env (autosave_cleanup t)) = Some (workout t)"
    using assms(3-6) by (intro hyd_after_save[of s]) simp_all
qed

lemma workout_dirty:
  assumes "reachable env s" "mounted s"
    "routeId t = routeId s" "loadedIdRef t = loadedIdRef s" "isDirtyRef t"
  shows "workout (commit env b c t) = workout t"
proof -
  have "settled s" using assms(1,2) reachable_INV[of env s] by (simp add: INV_def)
  then have "settled t" using assms(3-5) by (rule settled_dirty)
  then show ?thesis using commit_settled[of t env c] by (cases b) simp_all
qed

lemma or0_id [simp]: "or0 x = x"
  by (simp add: or0_def)

section \<open>Time passing without a pending autosave\<close>

lemma filter_isAuto_clearTimeout:
  assumes "\<forall>t\<in>set ts. fst t = h \<longrightarrow> \<not> isAuto t"
  shows "filter isAuto (clearTimeout h ts) = filter isAuto ts"
  using assms by (induction ts) (auto simp: clearTimeout_def)

lemma fire_quiet:
  assumes "\<forall>t\<in>set (timers s). fst t = h \<longrightarrow> \<not> isAuto t"
  shows "fire env h s = s
       \<or> fire env h s = s\<lparr>timers := clearTimeout h (timers s), isHydratingRef := False\<rparr>"
proof (cases "find (\<lambda>t. fst t = h) (timers s)")
  case None
  then show ?thesis by (simp add: fire_def)
next
  case (Some t)
  then have "t \<in> set (timers s)" "fst t = h"
    using find_Some_set[of "\<lambda>t. fst t = h" "timers s" t] by auto
  then have "\<not> isAuto t" using assms by blast
  then have "snd (snd t) = ClearHydrating"
    by (cases "snd (snd t)") (simp_all add: isAuto_def)
  then show ?thesis using Some by (simp add: fire_def)
qed

lemma fold_fire_quiet:
  assumes "\<forall>h\<in>set hs. \<forall>t\<in>set (timers s). fst t = h \<longrightarrow> \<not> isAuto t"
  shows "\<exists>ts b. fold (fire env) hs s = s\<lparr>timers := ts, isHydratingRef := b\<rparr>
           \<and> set ts \<subseteq> set (timers s) \<and> filter isAuto ts = filter isAuto (timers s)
           \<and> (b \<longrightarrow> isHydratingRef s)"
  using assms
proof (induction hs arbitrary: s)
  case Nil
  have "s = s\<lparr>timers := timers s, isHydratingRef := isHydratingRef s\<rparr>" by simp
  then show ?case by (metis fold_simps(1) subset_refl)
next
  case (Cons h hs)
  have q: "\<forall>t\<in>set (timers s). fst t = h \<longrightarrow> \<not> isAuto t" using Cons.prems by simp
  have "\<exists>ts1 b1. fire env h s = s\<lparr>timers := ts1, isHydratingRef := b1\<rparr>
      \<and> set ts1 \<subseteq> set (timers s) \<and> filter isAuto ts1 = filter isAuto (timers s)
      \<and> (b1 \<longrightarrow> isHydratingRef s)"
  proof (cases "fire env h s = s")
    case True
    have "s = s\<lparr>timers := timers s, isHydratingRef := isHydratingRef s\<rparr>" by simp
    then show ?thesis using True by (metis subset_refl)
  next
    case False
    then have "fire env h s = s\<lparr>timers := clearTimeout h (timers s), isHydratingRef := False\<rparr>"
      using fire_quiet[OF q, of env] by simp
    then show ?thesis
      using clearTimeout_subset[of h "timers s"] filter_isAuto_clearTimeout[OF q] by blast
  qed
  then obtain ts1 b1 where s1: "fire env h s = s\<lparr>timers := ts1, isHydratingRef := b1\<rparr>"
    and sub1: "set ts1 \<subseteq> set (timers s)" and f1: "filter isAuto ts1 = filter isAuto (timers s)"
    and b1: "b1 \<longrightarrow> isHydratingRef s"
    by blast
  have "\<forall>k\<in>set hs. \<forall>t\<in>set (timers (fire env h s)). fst t = k \<longrightarrow> \<not> isAuto t"
    using Cons.prems sub1 s1 by auto
  from Cons.IH[OF this] obtain ts b where
    r: "fold (fire env) hs (fire env h s) = (fire env h s)\<lparr>timers := ts, isHydratingRef := b\<rparr>"
    and sub: "set ts \<subseteq> set (timers (fire env h s))"
    and f: "filter isAuto ts = filter isAuto (timers (fire env h s))"
    and b: "b \<longrightarrow> isHydratingRef (fire env h s)"
    by blast
  have "fold (fire env) (h # hs) s = s\<lparr>timers := ts, isHydratingRef := b\<rparr>"
    using r s1 by simp
  moreover have "set ts \<subseteq> set (timers s)" using sub sub1 s1 by auto
  moreover have "filter isAuto ts = filter isAuto (timers s)" using f f1 s1 by simp
  moreover have "b \<longrightarrow> isHydratingRef s" using b b1 s1 by simp
  ultimately show ?case by blast
qed

lemma set_dueTimers: "set (dueTimers now ts) = {t \<in> set ts. fst (snd t) \<le> now}"
  by (auto simp: dueTimers_def)

lemma distinct_fst_eq:
  "distinct (map fst ts) \<Longrightarrow> t \<in> set ts \<Longrightarrow> t' \<in> set ts \<Longrightarrow> fst t = fst t' \<Longrightarrow> t = t'"
  by (meson distinct_map inj_onD)

lemma advance_quiet:
  assumes "distinct (map fst (timers s))"
    "\<forall>t\<in>set (timers s). isAuto t \<longrightarrow> clock s + d < fst (snd t)"
  shows "\<exists>ts b. advance env d s = s\<lparr>clock := clock s + d, timers := ts, isHydratingRef := b\<rparr>
           \<and> set ts \<subseteq> set (timers s) \<and> filter isAuto ts = filter isAuto (timers s)
           \<and> (b \<longrightarrow> isHydratingRef s)"
proof -
  let ?s1 = "s\<lparr>clock := clock s + d\<rparr>"
  let ?hs = "map fst (dueTimers (clock ?s1) (timers ?s1))"
  have "\<forall>h\<in>set ?hs. \<forall>t\<in>set (timers ?s1). fst t = h \<longrightarrow> \<not> isAuto t"
  proof (intro ballI impI)
    fix h t assume h: "h \<in> set ?hs" and t: "t \<in> set (timers ?s1)" and e: "fst t = h"
    from h obtain t0 where t0: "t0 \<in> set (timers s)" "fst (snd t0) \<le> clock s + d" "fst t0 = h"
      by (auto simp: set_dueTimers)
    have "t = t0" using distinct_fst_eq[OF assms(1), of t t0] t t0 e by simp
    then show "\<not> isAuto t" using assms(2) t0 by auto
  qed
  from fold_fire_quiet[OF this, of env] show ?thesis
    by (simp add: advance_def Let_def)
qed

lemma advance_noAuto:
  assumes "noAuto s"
  shows "gym (advance env d s) = gym s" and "noAuto (advance env d s)"
    and "isDirtyRef (advance env d s) = isDirtyRef s"
    and "workout (advance env d s) = workout s"
proof -
  let ?s1 = "s\<lparr>clock := clock s + d\<rparr>"
  have "\<forall>h\<in>set (map fst (dueTimers (clock ?s1) (timers ?s1))).
          \<forall>t\<in>set (timers ?s1). fst t = h \<longrightarrow> \<not> isAuto t"
    using assms by (simp add: noAuto_def)
  from fold_fire_quiet[OF this, of env] obtain ts b where
    "advance env d s = ?s1\<lparr>timers := ts, isHydratingRef := b\<rparr>" "set ts \<subseteq> set (timers s)"
    by (auto simp: advance_def Let_def)
  then show "gym (advance env d s) = gym s" "noAuto (advance env d s)"
    "isDirtyRef (advance env d s) = isDirtyRef s" "workout (advance env d s) = workout s"
    using assms by (auto simp: noAuto_def)
qed

section \<open>What a field edit does\<close>

lemma noAuto_filter: "noAuto s \<Longrightarrow> filter isAuto (timers s) = []"
  by (auto simp: noAuto_def filter_empty_conv)

lemma filter_isAuto_clearIfSet_noAuto:
  "\<forall>t\<in>set ts. \<not> isAuto t \<Longrightarrow> filter isAuto (clearIfSet r ts) = []"
  using clearIfSet_subset[of r ts] by (auto simp: filter_empty_conv)

lemma localEdit_result:
  assumes "INV t" "\<not> isHydratingRef t"
  shows "gym (localEdit env u t) = gym t"
    and "workout (localEdit env u t) = u"
    and "mounted (localEdit env u t) = mounted t"
    and "\<not> isHydratingRef (localEdit env u t)"
    and "isDirtyRef (localEdit env u t)"
    and "clock (localEdit env u t) = clock t"
    and "editSeqRef (localEdit env u t) = editSeqRef t + 1"
    and "filter isAuto (timers (localEdit env u t)) =
          (if exercises u = [] then []
           else [(nextTimerId t, clock t + 650,
                  AutosaveFlush u (editSeqRef t + 1) (workouts (gym t)))])"
proof -
  let ?t1 = "(markDirty t)\<lparr>workout := u\<rparr>"
  have le: "localEdit env u t = autosave_effect (autosave_cleanup ?t1)"
    by (simp add: localEdit_def commit_def)
  show "gym (localEdit env u t) = gym t" "workout (localEdit env u t) = u"
    "mounted (localEdit env u t) = mounted t" "\<not> isHydratingRef (localEdit env u t)"
    "isDirtyRef (localEdit env u t)" "clock (localEdit env u t) = clock t"
    "editSeqRef (localEdit env u t) = editSeqRef t + 1"
    using assms(2) by (simp_all add: le markDirty_def)
  have "timers_ok ?t1" using assms(1) by (simp add: INV_def timers_ok_def markDirty_def)
  moreover have "auto_weak ?t1"
    using assms(1) auto_ok_weak[of t] by (simp add: INV_def auto_weak_def markDirty_def)
  ultimately have n: "noAuto (autosave_cleanup ?t1)" by (rule cleanup_noAuto)
  then have n': "\<forall>x\<in>set (timers (autosave_cleanup ?t1)). \<not> isAuto x" by (simp add: noAuto_def)
  show "filter isAuto (timers (localEdit env u t)) =
          (if exercises u = [] then []
           else [(nextTimerId t, clock t + 650,
                  AutosaveFlush u (editSeqRef t + 1) (workouts (gym t)))])"
    unfolding le
    using assms(2) noAuto_filter[OF n] filter_isAuto_clearIfSet_noAuto[OF n']
    by (simp add: autosave_effect_def setTimeout_def markDirty_def isAuto_def)
qed

lemma INV_idCount: "INV (s\<lparr>gym := (gym s)\<lparr>idCount := n\<rparr>\<rparr>) = INV s"
  by (simp add: INV_gym)

lemma fieldEdit_localEdit:
  assumes "isFieldEdit e" "mounted s"
  shows "\<exists>u n. step env e s = localEdit env u (s\<lparr>gym := (gym s)\<lparr>idCount := n\<rparr>\<rparr>)"
proof -
  have s0: "s = s\<lparr>gym := (gym s)\<lparr>idCount := idCount (gym s)\<rparr>\<rparr>" by simp
  show ?thesis
  proof (cases e)
    case (EditTitle v)
    then show ?thesis using assms(2) s0 by (metis step_def handle.simps(3) editTitle_def)
  next
    case (EditNote v)
    then show ?thesis using assms(2) s0 by (metis step_def handle.simps(4) editNote_def)
  next
    case (RemoveExercise x)
    then show ?thesis using assms(2) s0 by (metis step_def handle.simps(5) removeExercise_def)
  next
    case (UpdateSet x y f)
    then show ?thesis using assms(2) s0 by (metis step_def handle.simps(6) updateSet_def)
  next
    case (AddSet x)
    then show ?thesis using assms(2)
      by (auto simp: step_def addSet_def split: prod.splits)
  next
    case (DeleteSet x y)
    then show ?thesis using assms(2)
      by (auto simp: step_def deleteSet_def split: prod.splits)
  qed (use assms(1) in simp_all)
qed

lemma fieldEdit_result:
  assumes "INV s" "mounted s" "\<not> isHydratingRef s" "isFieldEdit e"
  shows "calls (gym (step env e s)) = calls (gym s)"
    and "workouts (gym (step env e s)) = workouts (gym s)"
    and "mounted (step env e s)"
    and "\<not> isHydratingRef (step env e s)"
    and "isDirtyRef (step env e s)"
    and "clock (step env e s) = clock s"
    and "filter isAuto (timers (step env e s)) =
          (if exercises (workout (step env e s)) = [] then []
           else [(nextTimerId s, clock s + 650,
                  AutosaveFlush (workout (step env e s)) (editSeqRef (step env e s))
                    (workouts (gym s)))])"
proof -
  from fieldEdit_localEdit[OF assms(4,2), of env] obtain u n where
    e: "step env e s = localEdit env u (s\<lparr>gym := (gym s)\<lparr>idCount := n\<rparr>\<rparr>)" by blast
  let ?t = "s\<lparr>gym := (gym s)\<lparr>idCount := n\<rparr>\<rparr>"
  have i: "INV ?t" using assms(1) by (simp add: INV_idCount)
  have h: "\<not> isHydratingRef ?t" using assms(3) by simp
  note r = localEdit_result[OF i h, of env u]
  show "calls (gym (step env e s)) = calls (gym s)"
    "workouts (gym (step env e s)) = workouts (gym s)"
    "mounted (step env e s)" "\<not> isHydratingRef (step env e s)" "isDirtyRef (step env e s)"
    "clock (step env e s) = clock s"
    using r(1,3,4,5,6) assms(2) by (simp_all add: e)
  show "filter isAuto (timers (step env e s)) =
          (if exercises (workout (step env e s)) = [] then []
           else [(nextTimerId s, clock s + 650,
                  AutosaveFlush (workout (step env e s)) (editSeqRef (step env e s))
                    (workouts (gym s)))])"
    using r(2,7,8) by (simp add: e)
qed

section \<open>A burst of field edits and the flush that follows\<close>

lemma advance_mounted_step: "step env (Advance d) s = advance env d s"
  by (simp add: step_def)

lemma burst_inv:
  assumes "INV s" "mounted s" "\<not> isHydratingRef s" "isDirtyRef s"
    "\<exists>h. filter isAuto (timers s) =
       (if exercises (workout s) = [] then []
        else [(h, clock s + 650, AutosaveFlush (workout s) (editSeqRef s) W)])"
    "workouts (gym s) = W" "calls (gym s) = C"
    "\<forall>(d, e) \<in> set b. d < 650 \<and> isFieldEdit e"
  shows "INV (runBurst env b s) \<and> mounted (runBurst env b s)
       \<and> \<not> isHydratingRef (runBurst env b s) \<and> isDirtyRef (runBurst env b s)
       \<and> (\<exists>h. filter isAuto (timers (runBurst env b s)) =
            (if exercises (workout (runBurst env b s)) = [] then []
             else [(h, clock (runBurst env b s) + 650,
                    AutosaveFlush (workout (runBurst env b s)) (editSeqRef (runBurst env b s)) W)]))
       \<and> workouts (gym (runBurst env b s)) = W \<and> calls (gym (runBurst env b s)) = C"
  using assms
proof (induction b arbitrary: s)
  case Nil
  then show ?case by (auto simp: runBurst_def split: if_splits)
next
  case (Cons p b)
  obtain d e where p: "p = (d, e)" by (cases p)
  have d: "d < 650" and fe: "isFieldEdit e" using Cons.prems(8) p by auto
  let ?s1 = "advance env d s"
  have di: "distinct (map fst (timers s))" using Cons.prems(1) by (simp add: INV_def timers_ok_def)
  have nd: "\<forall>t\<in>set (timers s). isAuto t \<longrightarrow> clock s + d < fst (snd t)"
  proof (intro ballI impI)
    fix t assume "t \<in> set (timers s)" "isAuto t"
    then have tm: "t \<in> set (filter isAuto (timers s))" by simp
    from Cons.prems(5) obtain h where
      F: "filter isAuto (timers s) =
           (if exercises (workout s) = [] then []
            else [(h, clock s + 650, AutosaveFlush (workout s) (editSeqRef s) W)])"
      by blast
    have "fst (snd t) = clock s + 650"
      using tm unfolding F by (cases "exercises (workout s) = []") simp_all
    then show "clock s + d < fst (snd t)" using d by simp
  qed
  from advance_quiet[OF di nd, of env] obtain ts b' where
    a: "?s1 = s\<lparr>clock := clock s + d, timers := ts, isHydratingRef := b'\<rparr>"
    and f: "filter isAuto ts = filter isAuto (timers s)" and b': "b' \<longrightarrow> isHydratingRef s"
    by blast
  have i1: "INV ?s1" using Cons.prems(1) by (rule advance_inv)
  have m1: "mounted ?s1" using a Cons.prems(2) by simp
  have h1: "\<not> isHydratingRef ?s1" using a b' Cons.prems(3) by simp
  have g1: "gym ?s1 = gym s" using a by simp
  let ?s2 = "step env e ?s1"
  note r = fieldEdit_result[OF i1 m1 h1 fe, of env]
  have i2: "INV ?s2" using i1 by (rule step_inv)
  have x: "\<exists>h. filter isAuto (timers ?s2) =
       (if exercises (workout ?s2) = [] then []
        else [(h, clock ?s2 + 650, AutosaveFlush (workout ?s2) (editSeqRef ?s2) W)])"
    using r(6,7) g1 Cons.prems(6) by auto
  have w2: "workouts (gym ?s2) = W" using r(2) g1 Cons.prems(6) by simp
  have c2: "calls (gym ?s2) = C" using r(1) g1 Cons.prems(7) by simp
  have rest: "\<forall>(d, e) \<in> set b. d < 650 \<and> isFieldEdit e" using Cons.prems(8) by simp
  have rb: "runBurst env (p # b) s = runBurst env b ?s2"
    by (simp add: runBurst_def p advance_mounted_step)
  show ?case unfolding rb
    by (rule Cons.IH[OF i2 r(3) r(4) r(5) x w2 c2 rest])
qed

lemma filter_single_mem:
  assumes "filter P xs = [t]"
  shows "t \<in> set xs"
proof -
  have "t \<in> set (filter P xs)" using assms by simp
  then show ?thesis by simp
qed

lemma gym_fire_quiet:
  assumes "\<forall>t\<in>set (timers s). fst t = h \<longrightarrow> \<not> isAuto t"
  shows "gym (fire env h s) = gym s" "isDirtyRef (fire env h s) = isDirtyRef s"
    "mounted (fire env h s) = mounted s"
    "filter isAuto (timers (fire env h s)) = filter isAuto (timers s)"
  using fire_quiet[OF assms, of env] filter_isAuto_clearTimeout[OF assms]
  by auto

lemma fold_fire_noAuto:
  assumes "noAuto s"
  shows "gym (fold (fire env) hs s) = gym s" "isDirtyRef (fold (fire env) hs s) = isDirtyRef s"
    "noAuto (fold (fire env) hs s)"
proof -
  have "\<forall>h\<in>set hs. \<forall>t\<in>set (timers s). fst t = h \<longrightarrow> \<not> isAuto t"
    using assms by (simp add: noAuto_def)
  from fold_fire_quiet[OF this, of env] obtain ts b where
    "fold (fire env) hs s = s\<lparr>timers := ts, isHydratingRef := b\<rparr>" "set ts \<subseteq> set (timers s)"
    by blast
  then show "gym (fold (fire env) hs s) = gym s"
    "isDirtyRef (fold (fire env) hs s) = isDirtyRef s" "noAuto (fold (fire env) hs s)"
    using assms by (auto simp: noAuto_def)
qed

lemma find_unique:
  assumes "distinct (map fst ts)" "t \<in> set ts"
  shows "find (\<lambda>x. fst x = fst t) ts = Some t"
  using assms by (induction ts) (auto simp: rev_image_eqI)

lemma dirty_commit_False:
  "\<not> isDirtyRef s \<Longrightarrow> \<not> isDirtyRef (commit env a b s)"
  by (auto simp: commit_alt Let_def hydration_effect_def setTimeout_def split: option.splits)

lemma fire_flush:
  assumes "INV s" "(h, due, AutosaveFlush w seq ws) \<in> set (timers s)"
  shows "calls (gym (fire env h s)) = calls (gym s) @ [flushCall ws w]"
    and "\<not> isDirtyRef (fire env h s)" and "noAuto (fire env h s)"
proof -
  let ?t = "(h, due, AutosaveFlush w seq ws)"
  have a: "isAuto ?t" by (simp add: isAuto_def)
  have di: "distinct (map fst (timers s))" using assms(1) by (simp add: INV_def timers_ok_def)
  have f: "find (\<lambda>x. fst x = h) (timers s) = Some ?t"
    using find_unique[OF di assms(2)] by simp
  have ok: "mounted s" "seq = editSeqRef s"
    using assms a by (auto simp: INV_def auto_ok_def)
  let ?s3 = "s\<lparr>timers := clearTimeout h (timers s), gym := saveWorkoutToContext ws w (gym s),
               isDirtyRef := False\<rparr>"
  have e: "fire env h s = commit env True False ?s3"
    using f ok by (simp add: fire_def Let_def)
  show "calls (gym (fire env h s)) = calls (gym s) @ [flushCall ws w]"
    by (simp add: e saveWorkoutToContext_def flushCall_def updateWorkout_def addWorkout_def)
  show d: "\<not> isDirtyRef (fire env h s)"
    unfolding e by (rule dirty_commit_False) simp
  have "INV (fire env h s)" using assms(1) by (rule fire_inv)
  then show "noAuto (fire env h s)" using d guard_noAuto by blast
qed

lemma fold_flush:
  assumes "INV s" "filter isAuto (timers s) = [(h, due, AutosaveFlush w seq ws)]" "h \<in> set hs"
  shows "calls (gym (fold (fire env) hs s)) = calls (gym s) @ [flushCall ws w]
       \<and> \<not> isDirtyRef (fold (fire env) hs s) \<and> noAuto (fold (fire env) hs s)"
  using assms
proof (induction hs arbitrary: s)
  case Nil
  then show ?case by simp
next
  case (Cons k hs)
  let ?t = "(h, due, AutosaveFlush w seq ws)"
  have tin: "?t \<in> set (timers s)"
    using Cons.prems(2) by (rule filter_single_mem)
  have di: "distinct (map fst (timers s))" using Cons.prems(1) by (simp add: INV_def timers_ok_def)
  show ?case
  proof (cases "k = h")
    case True
    note r = fire_flush[OF Cons.prems(1) tin, of env]
    show ?thesis
      using True r fold_fire_noAuto[OF r(3), of env hs] by simp
  next
    case False
    have q: "\<forall>t\<in>set (timers s). fst t = k \<longrightarrow> \<not> isAuto t"
    proof (intro ballI impI notI)
      fix t assume "t \<in> set (timers s)" "fst t = k" "isAuto t"
      then have "t \<in> set (filter isAuto (timers s))" by simp
      then show False using Cons.prems(2) False \<open>fst t = k\<close> by simp
    qed
    note g = gym_fire_quiet[OF q, of env]
    have i: "INV (fire env k s)" using Cons.prems(1) by (rule fire_inv)
    have f: "filter isAuto (timers (fire env k s)) = [?t]" using g(4) Cons.prems(2) by simp
    have hin: "h \<in> set hs" using Cons.prems(3) False by simp
    show ?thesis using Cons.IH[OF i f hin] g(1) by simp
  qed
qed

lemma advance_flush:
  assumes "INV s" "filter isAuto (timers s) = [(h, due, AutosaveFlush w seq ws)]"
    "due \<le> clock s + d"
  shows "calls (gym (advance env d s)) = calls (gym s) @ [flushCall ws w]"
    and "\<not> isDirtyRef (advance env d s)" and "noAuto (advance env d s)"
proof -
  let ?s1 = "s\<lparr>clock := clock s + d\<rparr>"
  have tin: "(h, due, AutosaveFlush w seq ws) \<in> set (timers s)"
    using assms(2) by (rule filter_single_mem)
  then have "(h, due, AutosaveFlush w seq ws) \<in> set (dueTimers (clock ?s1) (timers ?s1))"
    using assms(3) by (simp add: set_dueTimers)
  then have hin: "h \<in> set (map fst (dueTimers (clock ?s1) (timers ?s1)))"
    by (metis fst_conv image_eqI set_map)
  have i: "INV ?s1" using assms(1) by simp
  have f: "filter isAuto (timers ?s1) = [(h, due, AutosaveFlush w seq ws)]" using assms(2) by simp
  from fold_flush[OF i f hin, of env]
  show "calls (gym (advance env d s)) = calls (gym s) @ [flushCall ws w]"
    "\<not> isDirtyRef (advance env d s)" "noAuto (advance env d s)"
    by (simp_all add: advance_def Let_def)
qed

lemma length_filter_same_key:
  assumes "distinct (map fst ts)" "\<forall>t\<in>set ts. P t \<longrightarrow> fst t = h"
  shows "length (filter P ts) \<le> 1"
  using assms
proof (induction ts)
  case Nil
  then show ?case by simp
next
  case (Cons t ts)
  show ?case
  proof (cases "P t")
    case True
    then have "fst t = h" using Cons.prems(2) by simp
    then have "\<forall>x\<in>set ts. \<not> P x" using Cons.prems by (auto simp: rev_image_eqI)
    then have "filter P ts = []" by (simp add: filter_empty_conv)
    then show ?thesis using True by simp
  next
    case False
    then show ?thesis using Cons by simp
  qed
qed

lemma at_most_one_autosave:
  assumes "INV s"
  shows "length (filter isAuto (timers s)) \<le> 1"
proof (cases "autosaveTimerRef s")
  case None
  then have "\<forall>t\<in>set (timers s). \<not> isAuto t" using assms by (auto simp: INV_def auto_ok_def)
  then show ?thesis by (simp add: filter_empty_conv[THEN iffD2])
next
  case (Some h)
  have "distinct (map fst (timers s))" using assms by (simp add: INV_def timers_ok_def)
  moreover have "\<forall>t\<in>set (timers s). isAuto t \<longrightarrow> fst t = h"
    using assms Some by (auto simp: INV_def auto_ok_def)
  ultimately show ?thesis by (rule length_filter_same_key)
qed

lemma dirty_commit_hyd:
  "isDirtyRef (commit env True False t) = isDirtyRef (fst (hydration_effect env t))"
  by (simp add: commit_alt Let_def split: option.splits)

lemma dirty_hyd:
  assumes "routeId t = Some ''new'' \<longrightarrow> loadedIdRef t = Some ''new''"
  shows "isDirtyRef (fst (hydration_effect env t)) = isDirtyRef t"
  using assms by (auto simp: hydration_effect_def setTimeout_def split: option.splits)

lemma fire_dirty:
  assumes "find (\<lambda>t. fst t = h) (timers s) = Some (h, due, AutosaveFlush w seq ws)"
    "routeId s = Some ''new'' \<longrightarrow> loadedIdRef s = Some ''new''"
  shows "isDirtyRef (fire env h s) = (isDirtyRef s \<and> seq \<noteq> editSeqRef s)"
  using assms
  by (auto simp: fire_def Let_def dirty_commit_hyd dirty_hyd)

section \<open>Every exercise keeps a set\<close>

lemma addSet_exercises_rel:
  "list_all2 (\<lambda>ex r. if ex_id ex = exId
                      then \<exists>st. r = ex\<lparr>sets := sets ex @ [st]\<rparr> \<and> \<not> s_completed st
                      else r = ex)
     exs (fst (addSet_exercises env exId n exs))"
  by (induction exs arbitrary: n) (auto simp: Let_def case_prod_beta)

lemma deleteSet_exercises_rel:
  "list_all2 (\<lambda>ex r. if ex_id ex = exId
                      then (if filter (\<lambda>st. s_id st \<noteq> setId) (sets ex) \<noteq> []
                            then r = ex\<lparr>sets := filter (\<lambda>st. s_id st \<noteq> setId) (sets ex)\<rparr>
                            else \<exists>g. r = ex\<lparr>sets := [\<lparr>s_id = g, weight = 0, reps = 0,
                                                       s_completed = False\<rparr>]\<rparr>)
                      else r = ex)
     exs (fst (deleteSet_exercises env exId setId n exs))"
  by (induction exs arbitrary: n) (auto simp: Let_def defaultSet_def case_prod_beta)

lemma list_all2_all:
  assumes "list_all2 R xs ys" "list_all P xs" "\<And>x y. R x y \<Longrightarrow> P x \<Longrightarrow> Q y"
  shows "list_all Q ys"
  using assms by (induction rule: list_all2_induct) auto

lemma addSet_ok:
  "list_all (\<lambda>ex. sets ex \<noteq> []) exs \<Longrightarrow>
   list_all (\<lambda>ex. sets ex \<noteq> []) (fst (addSet_exercises env exId n exs))"
  by (rule list_all2_all[OF addSet_exercises_rel,
        where P = "\<lambda>ex. sets ex \<noteq> []" and Q = "\<lambda>ex. sets ex \<noteq> []"])
     (auto split: if_splits)

lemma deleteSet_ok:
  "list_all (\<lambda>ex. sets ex \<noteq> []) exs \<Longrightarrow>
   list_all (\<lambda>ex. sets ex \<noteq> []) (fst (deleteSet_exercises env exId setId n exs))"
  by (rule list_all2_all[OF deleteSet_exercises_rel,
        where P = "\<lambda>ex. sets ex \<noteq> []" and Q = "\<lambda>ex. sets ex \<noteq> []"])
     (auto split: if_splits)

lemma updateSet_ok:
  "list_all (\<lambda>ex. sets ex \<noteq> []) exs \<Longrightarrow>
   list_all (\<lambda>ex. sets ex \<noteq> []) (updateSet_exercises exId setId fu exs)"
  by (induction exs) (auto simp: updateSet_exercises_def)

lemma hyd_Some_cases:
  "snd (hydration_effect env s) = Some w \<Longrightarrow> exercises w = [] \<or> w \<in> set (workouts (gym s))"
  by (auto simp: hydration_effect_def newDraft_def split: option.splits if_splits
      dest: find_Some_set)

lemma commit_setsOk:
  assumes "setsOk (workout s)" "list_all setsOk (workouts (gym s))"
  shows "setsOk (workout (commit env a b s))"
proof (cases "if a then snd (hydration_effect env (if b then autosave_cleanup s else s)) else None")
  case None
  then show ?thesis using assms(1) by (simp add: commit_alt Let_def)
next
  case (Some w)
  then have a: "a" and h: "snd (hydration_effect env (if b then autosave_cleanup s else s)) = Some w"
    by (auto split: if_splits)
  have "gym (if b then autosave_cleanup s else s) = gym s" by simp
  with hyd_Some_cases[OF h] have "exercises w = [] \<or> w \<in> set (workouts (gym s))" by simp
  then have "setsOk w"
    using assms(2) by (auto simp: setsOk_def list_all_iff)
  then show ?thesis using Some by (simp add: commit_alt Let_def)
qed

lemma markDirty_fields [simp]:
  "gym (markDirty s) = gym s" "workout (markDirty s) = workout s"
  "mounted (markDirty s) = mounted s" "routeId (markDirty s) = routeId s"
  "loadedIdRef (markDirty s) = loadedIdRef s" "isDirtyRef (markDirty s)"
  by (simp_all add: markDirty_def)

lemma save_ok:
  assumes "setsOk u" "list_all setsOk (workouts g)"
  shows "list_all setsOk (workouts (saveWorkoutToContext ws u g))"
  using assms
  by (auto simp: saveWorkoutToContext_def updateWorkout_def addWorkout_def list_all_iff)

lemma localEdit_ok:
  assumes "setsOk u" "list_all setsOk (workouts (gym t))"
  shows "setsOk (workout (localEdit env u t)) \<and> list_all setsOk (workouts (gym (localEdit env u t)))"
  using assms by (simp add: localEdit_def)

lemma saved_ok:
  assumes "setsOk (workout t)" "list_all setsOk (workouts (gym t))"
  shows "setsOk (workout (commit env a b t)) \<and> list_all setsOk (workouts (gym (commit env a b t)))"
  using assms commit_setsOk by simp

lemma unmount_ok:
  assumes "setsOk (workout t)" "list_all setsOk (workouts (gym t))"
  shows "setsOk (workout (unmount t)) \<and> list_all setsOk (workouts (gym (unmount t)))"
  using assms by (simp add: unmount_def)

lemma delete_ok:
  "list_all setsOk (workouts g) \<Longrightarrow> list_all setsOk (workouts (deleteWorkout i g))"
  by (auto simp: deleteWorkout_def list_all_iff)

lemma setsOk_simps [simp]:
  "setsOk (w\<lparr>title := v\<rparr>) = setsOk w" "setsOk (w\<lparr>w_note := v\<rparr>) = setsOk w"
  "setsOk (w\<lparr>completed := c\<rparr>) = setsOk w" "setsOk (w\<lparr>startTimestamp := ts\<rparr>) = setsOk w"
  "setsOk (w\<lparr>elapsedSeconds := el\<rparr>) = setsOk w"
  by (simp_all add: setsOk_def)

lemma toggled_ok [simp]: "setsOk (toggled now w) = setsOk w"
  by (simp add: toggled_def setsOk_def split: option.splits)

lemma finished_ok [simp]: "setsOk (finished now w) = setsOk w"
  by (simp add: finished_def setsOk_def Let_def)

lemma resumed_ok [simp]: "setsOk (resumed w) = setsOk w"
  by (simp add: resumed_def setsOk_def)

lemma handle_ok:
  assumes "setsOk (workout s)" "list_all setsOk (workouts (gym s))" "payloadOk e"
    "\<forall>d. e \<noteq> Advance d"
  shows "setsOk (workout (handle env e s)) \<and> list_all setsOk (workouts (gym (handle env e s)))"
proof (cases e)
  case (SetRoute r)
  then show ?thesis using assms saved_ok[of "s\<lparr>routeId := r\<rparr>"] by simp
next
  case (Refresh ws)
  then show ?thesis
    using assms saved_ok[of "s\<lparr>gym := (gym s)\<lparr>workouts := ws\<rparr>\<rparr>"] by simp
next
  case (EditTitle v)
  then show ?thesis using assms by (simp add: editTitle_def localEdit_ok)
next
  case (EditNote v)
  then show ?thesis using assms by (simp add: editNote_def localEdit_ok)
next
  case (RemoveExercise x)
  then show ?thesis using assms
    by (simp add: removeExercise_def localEdit_def setsOk_def list_all_iff)
next
  case (UpdateSet x y f)
  then show ?thesis using assms updateSet_ok[of "exercises (workout s)" x y f]
    by (simp add: updateSet_def localEdit_def setsOk_def)
next
  case (AddSet x)
  then show ?thesis
    using assms addSet_ok[of "exercises (workout s)" env x "idCount (gym s)"]
    by (simp add: addSet_def localEdit_def setsOk_def case_prod_beta)
next
  case (DeleteSet x y)
  then show ?thesis
    using assms deleteSet_ok[of "exercises (workout s)" env x y "idCount (gym s)"]
    by (simp add: deleteSet_def localEdit_def setsOk_def case_prod_beta)
next
  case (AddExercise d)
  let ?b = "(if completed (workout s) then (workout s)\<lparr>completed := False\<rparr> else workout s)"
  let ?u = "?b\<lparr>exercises := exercises ?b
       @ [\<lparr>ex_id = generateId env (idCount (gym s)), defId = d,
           sets = [defaultSet (generateId env (idCount (gym s) + 1))]\<rparr>]\<rparr>"
  have u: "setsOk ?u" using assms(1) by (simp add: setsOk_def)
  have "list_all setsOk (workouts (saveWorkoutToContext (workouts (gym s)) ?u
          ((gym s)\<lparr>idCount := idCount (gym s) + 2\<rparr>)))"
    using u assms(2) by (intro save_ok) simp_all
  then show ?thesis using AddExercise u
    by (simp add: addExercise_def Let_def commit_setsOk)
next
  case (ToggleTimer now)
  have "list_all setsOk (workouts (saveWorkoutToContext (workouts (gym s)) (toggled now (workout s))
          (gym s)))"
    using assms(1,2) by (intro save_ok) simp_all
  then show ?thesis using ToggleTimer assms
    by (simp add: toggleTimer_def Let_def commit_setsOk)
next
  case (Finish now)
  have "list_all setsOk (workouts (saveWorkoutToContext (workouts (gym s)) (finished now (workout s))
          (gym s)))"
    using assms(1,2) by (intro save_ok) simp_all
  then show ?thesis using Finish assms
    by (simp add: handleFinish_def Let_def commit_setsOk unmount_def delete_ok)
next
  case Resume
  have "list_all setsOk (workouts (saveWorkoutToContext (workouts (gym s)) (resumed (workout s))
          (gym s)))"
    using assms(1,2) by (intro save_ok) simp_all
  then show ?thesis using Resume assms
    by (simp add: handleResume_def Let_def commit_setsOk)
next
  case SaveBack
  have "list_all setsOk (workouts (saveWorkoutToContext (workouts (gym s)) (workout s) (gym s)))"
    using assms(1,2) by (intro save_ok) simp_all
  then show ?thesis using SaveBack assms
    by (simp add: handleSaveBack_def unmount_def delete_ok)
next
  case ExitReport
  then show ?thesis using assms by (simp add: handleExitReport_def unmount_def)
next
  case (Advance d)
  then show ?thesis using assms(4) by simp
qed

lemma fire_ok:
  assumes "INV s" "setsOk (workout s)" "list_all setsOk (workouts (gym s))"
  shows "setsOk (workout (fire env h s)) \<and> list_all setsOk (workouts (gym (fire env h s)))"
proof (cases "find (\<lambda>t. fst t = h) (timers s)")
  case None
  then show ?thesis using assms by (simp add: fire_def)
next
  case (Some t)
  then have tin: "t \<in> set (timers s)" using find_Some_set[of _ "timers s" t] by blast
  show ?thesis
  proof (cases "snd (snd t)")
    case ClearHydrating
    then show ?thesis using Some assms by (simp add: fire_def)
  next
    case (AutosaveFlush w seq ws)
    then have "isAuto t" by (simp add: isAuto_def)
    then have "w = workout s" using assms(1) tin AutosaveFlush by (auto simp: INV_def auto_ok_def)
    then have "list_all setsOk (workouts (saveWorkoutToContext ws w (gym s)))"
      using assms(2,3) by (intro save_ok) simp_all
    then show ?thesis using Some AutosaveFlush assms(2)
      by (simp add: fire_def Let_def commit_setsOk)
  qed
qed

lemma fold_fire_ok:
  assumes "INV s" "setsOk (workout s)" "list_all setsOk (workouts (gym s))"
  shows "setsOk (workout (fold (fire env) hs s))
       \<and> list_all setsOk (workouts (gym (fold (fire env) hs s)))"
  using assms
proof (induction hs arbitrary: s)
  case Nil
  then show ?case by simp
next
  case (Cons h hs)
  have "INV (fire env h s)" using Cons.prems(1) by (rule fire_inv)
  then show ?case using Cons.IH[of "fire env h s"] fire_ok[OF Cons.prems, of env h] by simp
qed

lemma advance_ok:
  assumes "INV s" "setsOk (workout s)" "list_all setsOk (workouts (gym s))"
  shows "setsOk (workout (advance env d s)) \<and> list_all setsOk (workouts (gym (advance env d s)))"
  using assms fold_fire_ok[of "s\<lparr>clock := clock s + d\<rparr>" env]
  by (simp add: advance_def Let_def)

lemma step_ok:
  assumes "INV s" "setsOk (workout s)" "list_all setsOk (workouts (gym s))" "payloadOk e"
  shows "setsOk (workout (step env e s)) \<and> list_all setsOk (workouts (gym (step env e s)))"
proof (cases "\<exists>d. e = Advance d")
  case True
  then show ?thesis using assms advance_ok by (auto simp: step_def)
next
  case False
  then have na: "\<forall>d. e \<noteq> Advance d" by simp
  show ?thesis
  proof (cases "mounted s")
    case True
    then show ?thesis using handle_ok[OF assms(2,3,4) na, of env] by (simp add: step_def)
  next
    case False
    then show ?thesis using assms na by (cases e) (simp_all add: step_def)
  qed
qed

lemma mount_ok:
  assumes "list_all setsOk (workouts g)"
  shows "setsOk (workout (mount env rid g)) \<and> list_all setsOk (workouts (gym (mount env rid g)))"
  using assms unfolding mount_def
  by (intro saved_ok) (simp_all add: setsOk_def newDraft_def)

lemma trace_ok:
  assumes "INV s" "setsOk (workout s)" "list_all setsOk (workouts (gym s))" "list_all payloadOk es"
  shows "setsOk (workout (fold (step env) es s))"
  using assms
proof (induction es arbitrary: s)
  case Nil
  then show ?case by simp
next
  case (Cons e es)
  have "INV (step env e s)" using Cons.prems(1) by (rule step_inv)
  then show ?case using Cons.IH[of "step env e s"] step_ok[of s e env] Cons.prems by simp
qed

section \<open>Facts about the swipeable row\<close>

lemma OPEN_THRESHOLD_ge: "18 \<le> OPEN_THRESHOLD"
  by (simp add: OPEN_THRESHOLD_def)

lemma ACTION_WIDTH_pos: "0 < ACTION_WIDTH"
  by (simp add: ACTION_WIDTH_def)

lemma offset_open [simp]:
  "offsetXRef (openRight s) = ACTION_WIDTH" "offsetXRef (openLeft s) = - ACTION_WIDTH"
  "offsetXRef (close s) = 0"
  by (simp_all add: openRight_def openLeft_def close_def setOffset_def Let_def ACTION_WIDTH_def)

lemma handlePointerUp_offset:
  assumes "isDragging s" and "lockedAxis s = Some AxisX"
  shows "offsetXRef (handlePointerUp now s) =
     (if offsetXRef s > OPEN_THRESHOLD
         \<or> (offsetXRef s - baseOffset s > 12
             \<and> \<bar>offsetXRef s - baseOffset s\<bar> / max 1 (now - startTime s) > VELOCITY_OPEN)
      then ACTION_WIDTH
      else if offsetXRef s < - OPEN_THRESHOLD
         \<or> (offsetXRef s - baseOffset s < - 12
             \<and> \<bar>offsetXRef s - baseOffset s\<bar> / max 1 (now - startTime s) > VELOCITY_OPEN)
      then - ACTION_WIDTH
      else 0)"
proof -
  have d: "\<And>c a b. offsetXRef ((if c then a else b)\<lparr>lockedAxis := None\<rparr>)
      = (if c then offsetXRef a else offsetXRef b)"
    by simp
  show ?thesis
    unfolding handlePointerUp_def Let_def
    using assms
    by (simp add: d if_distrib[of offsetXRef] split del: if_split cong del: if_weak_cong)
qed

section \<open>Facts about the long-press hook\<close>

lemma lp_inv_no_timers:
  assumes "lp_inv s" "\<not> startLongPress s \<or> timerRef s = None"
  shows "lp_timers s = []"
proof (cases "lp_timers s")
  case Nil
  then show ?thesis .
next
  case (Cons t ts)
  then have "t \<in> set (lp_timers s)" by simp
  then show ?thesis using assms by (auto simp: lp_inv_def)
qed

lemma lp_inv_idle:
  assumes "lp_inv s" "\<not> startLongPress s"
  shows "lp_timers s = []" "\<not> renderPending s"
proof -
  show "lp_timers s = []" using assms lp_inv_no_timers by blast
  show "\<not> renderPending s" using assms unfolding lp_inv_def by blast
qed

lemma lp_clear_fields [simp]:
  "startLongPress (lp_clear s) = startLongPress s" "timerRef (lp_clear s) = timerRef s"
  "renderPending (lp_clear s) = renderPending s"
  "startPos (lp_clear s) = startPos s" "invoked (lp_clear s) = invoked s"
  "lp_clock (lp_clear s) = lp_clock s" "lp_nextTimerId (lp_clear s) = lp_nextTimerId s"
  by (simp_all add: lp_clear_def split: option.splits)

lemma lp_clear_all:
  assumes "\<forall>t \<in> set (lp_timers s). timerRef s = Some (fst t)"
  shows "lp_timers (lp_clear s) = []"
proof (cases "lp_timers s")
  case Nil
  then show ?thesis by (simp add: lp_clear_def clearTimeout_def split: option.splits)
next
  case (Cons t ts)
  then have "timerRef s = Some (fst t)" using assms by simp
  then show ?thesis using assms
    by (auto simp: lp_clear_def clearTimeout_def filter_empty_conv)
qed

lemma lp_commit_idle:
  assumes "lp_timers s = []" "\<not> startLongPress s"
  shows "lp_commit ms s = s"
proof -
  have "lp_clear s = s" using assms(1) by (simp add: lp_clear_def clearTimeout_def split: option.splits)
  then show ?thesis using assms(2) by (simp add: lp_commit_def lp_effect_def)
qed

lemma lp_commit_armed:
  assumes "\<forall>t \<in> set (lp_timers s). timerRef s = Some (fst t)" "startLongPress s"
  shows "lp_commit ms s =
     s\<lparr>lp_timers := [(lp_nextTimerId s, lp_clock s + ms, ())],
       timerRef := Some (lp_nextTimerId s), lp_nextTimerId := Suc (lp_nextTimerId s)\<rparr>"
proof -
  have "lp_clear s = s\<lparr>lp_timers := []\<rparr>"
    using lp_clear_all[OF assms(1)] by (simp add: lp_clear_def split: option.splits)
  then show ?thesis using assms(2) by (simp add: lp_commit_def lp_effect_def)
qed

text \<open>Clearing, resetting the state and rendering leaves an idle hook.\<close>

lemma lp_disarm:
  assumes "\<forall>t \<in> set (lp_timers s). timerRef s = Some (fst t)"
  shows "lp_commit ms (lp_clear (s\<lparr>startLongPress := False, renderPending := False\<rparr>))
       = s\<lparr>startLongPress := False, renderPending := False, lp_timers := []\<rparr>"
proof -
  let ?u = "s\<lparr>startLongPress := False, renderPending := False\<rparr>"
  have a: "\<forall>t \<in> set (lp_timers ?u). timerRef ?u = Some (fst t)"
    using assms by simp
  have c: "lp_clear ?u = s\<lparr>startLongPress := False, renderPending := False, lp_timers := []\<rparr>"
    using lp_clear_all[OF a] by (simp add: lp_clear_def split: option.splits)
  show ?thesis unfolding c by (rule lp_commit_idle) simp_all
qed

lemma cancel_result:
  assumes "lp_inv s"
  shows "cancel ms s = s \<and> \<not> startLongPress s
       \<or> cancel ms s = s\<lparr>startLongPress := False, renderPending := False, lp_timers := []\<rparr>"
proof -
  have "\<forall>t \<in> set (lp_timers s). timerRef s = Some (fst t)"
    using assms by (simp add: lp_inv_def)
  from lp_disarm[OF this, of ms] show ?thesis by (simp add: cancel_def)
qed

lemma up_armed:
  assumes "lp_inv s" "startLongPress s"
  shows "\<exists>xs. lp_onPointerUp ms s =
           s\<lparr>startLongPress := False, renderPending := False, lp_timers := [],
             startPos := None, invoked := invoked s @ xs\<rparr> \<and> length xs \<le> 1"
proof -
  let ?s1 = "(case timerRef s of None \<Rightarrow> s
             | Some h \<Rightarrow> if h \<noteq> 0 then (lp_clear s)\<lparr>invoked := invoked s @ [OnTap]\<rparr> else s)"
  have i1: "\<forall>t \<in> set (lp_timers ?s1). timerRef ?s1 = Some (fst t)"
    using assms(1) lp_clear_all[of s]
    by (auto simp: lp_inv_def split: option.splits)
  have "\<exists>xs. invoked ?s1 = invoked s @ xs \<and> length xs \<le> 1"
    by (auto split: option.splits)
  then obtain xs where xs: "invoked ?s1 = invoked s @ xs" "length xs \<le> 1" by blast
  have i2: "\<forall>t \<in> set (lp_timers (?s1\<lparr>startPos := None\<rparr>)).
      timerRef (?s1\<lparr>startPos := None\<rparr>) = Some (fst t)"
    using i1 by simp
  have "lp_onPointerUp ms s =
      lp_commit ms (?s1\<lparr>startLongPress := False, renderPending := False, startPos := None\<rparr>)"
    using assms(2) by (simp add: lp_onPointerUp_def Let_def)
  also have "\<dots> = lp_commit ms
      (lp_clear ((?s1\<lparr>startPos := None\<rparr>)\<lparr>startLongPress := False, renderPending := False\<rparr>))"
    by (simp add: lp_commit_def lp_effect_def lp_clear_def clearTimeout_def split: option.splits)
  also have "\<dots> = (?s1\<lparr>startPos := None\<rparr>)
      \<lparr>startLongPress := False, renderPending := False, lp_timers := []\<rparr>"
    by (rule lp_disarm[OF i2])
  also have "\<dots> = s\<lparr>startLongPress := False, renderPending := False, lp_timers := [],
             startPos := None, invoked := invoked s @ xs\<rparr>"
    using xs(1) by (auto simp: lp_clear_def split: option.splits if_splits)
  finally show ?thesis using xs(2) by blast
qed

lemma fire_armed:
  assumes "lp_inv s" "find (\<lambda>t. fst t = h) (lp_timers s) = Some t"
  shows "lp_fire h s =
      s\<lparr>lp_timers := [], invoked := invoked s @ [OnLongPress], renderPending := True\<rparr>"
    and "startLongPress s"
proof -
  have tin: "t \<in> set (lp_timers s)" "fst t = h"
    using find_Some_set[OF assms(2)] by auto
  then have r: "timerRef s = Some h"
    using assms(1) by (auto simp: lp_inv_def)
  show a: "startLongPress s"
    using assms(1) tin by (auto simp: lp_inv_def)
  have c: "clearTimeout h (lp_timers s) = []"
    using assms(1) r by (auto simp: clearTimeout_def filter_empty_conv lp_inv_def)
  show "lp_fire h s =
      s\<lparr>lp_timers := [], invoked := invoked s @ [OnLongPress], renderPending := True\<rparr>"
    using assms(2) a c by (simp add: lp_fire_def lp_timeout_def Let_def)
qed

lemma fire_idle:
  assumes "lp_timers s = []"
  shows "lp_fire h s = s"
  using assms by (simp add: lp_fire_def)

lemma fold_fire_idle:
  assumes "lp_timers s = []"
  shows "fold lp_fire hs s = s"
  using assms by (induction hs) (simp_all add: fire_idle)

text \<open>What a run of timer callbacks does: at most one long press, with its render pending.\<close>

lemma fold_fire_lp:
  assumes "lp_inv s"
  shows "fold lp_fire hs s = s
       \<or> (startLongPress s \<and> fold lp_fire hs s =
            s\<lparr>lp_timers := [], invoked := invoked s @ [OnLongPress], renderPending := True\<rparr>)"
  using assms
proof (induction hs arbitrary: s)
  case Nil
  then show ?case by simp
next
  case (Cons h hs)
  show ?case
  proof (cases "find (\<lambda>t. fst t = h) (lp_timers s)")
    case None
    then have "lp_fire h s = s" by (simp add: lp_fire_def)
    then show ?thesis using Cons by simp
  next
    case (Some t)
    note f = fire_armed[OF Cons.prems Some]
    have "fold lp_fire hs (lp_fire h s) = lp_fire h s"
      by (rule fold_fire_idle) (simp add: f(1))
    then show ?thesis using f by simp
  qed
qed

lemma advance_lp:
  assumes "lp_inv s"
  shows "lp_advance d s = s\<lparr>lp_clock := lp_clock s + d\<rparr>
       \<or> (startLongPress s \<and> lp_advance d s =
            s\<lparr>lp_clock := lp_clock s + d, lp_timers := [],
              invoked := invoked s @ [OnLongPress], renderPending := True\<rparr>)"
proof -
  let ?s1 = "s\<lparr>lp_clock := lp_clock s + d\<rparr>"
  have i1: "lp_inv ?s1" using assms by (simp add: lp_inv_def)
  from fold_fire_lp[OF i1, of "map fst (dueTimers (lp_clock ?s1) (lp_timers ?s1))"]
  show ?thesis by (simp add: lp_advance_def Let_def)
qed

lemma render_result:
  assumes "lp_inv s"
  shows "lp_render ms s =
      (if renderPending s then s\<lparr>startLongPress := False, renderPending := False\<rparr> else s)"
proof (cases "renderPending s")
  case True
  then have a: "startLongPress s" "lp_timers s = []" using assms by (simp_all add: lp_inv_def)
  have "lp_commit ms (s\<lparr>startLongPress := False, renderPending := False\<rparr>)
      = s\<lparr>startLongPress := False, renderPending := False\<rparr>"
    by (rule lp_commit_idle) (simp_all add: a)
  then show ?thesis using True a by (simp add: lp_render_def)
next
  case False
  then show ?thesis by (simp add: lp_render_def)
qed

lemma lp_step_potential:
  assumes "lp_inv s" "rendered e"
  shows "\<exists>xs. invoked (lp_step ms e s) = invoked s @ xs
           \<and> length xs + (if startLongPress (lp_step ms e s) then 1 else 0)
               \<le> (if startLongPress s then 1 else (0::nat))
           \<and> lp_inv (lp_step ms e s)"
proof (cases e)
  case (PointerDown p)
  then show ?thesis using assms(2) by simp
next
  case (PointerMove p)
  have "lp_step ms e s = s
      \<or> lp_step ms e s = s\<lparr>startLongPress := False, renderPending := False, lp_timers := []\<rparr>"
    using cancel_result[OF assms(1), of ms] PointerMove
    by (auto simp: lp_onPointerMove_def Let_def split: option.splits)
  then show ?thesis using assms(1) by (auto simp: lp_inv_def)
next
  case PointerUp
  show ?thesis
  proof (cases "startLongPress s")
    case True
    from up_armed[OF assms(1) True, of ms] PointerUp True show ?thesis
      by (auto simp: lp_inv_def)
  next
    case False
    then show ?thesis using PointerUp assms(1) by (simp add: lp_onPointerUp_def lp_inv_def)
  qed
next
  case PointerLeave
  then show ?thesis using cancel_result[OF assms(1), of ms] assms(1)
    by (auto simp: lp_onPointerLeave_def lp_inv_def)
next
  case Rerender
  let ?u = "s\<lparr>startLongPress := (startLongPress s \<and> \<not> renderPending s), renderPending := False\<rparr>"
  show ?thesis
  proof (cases "startLongPress s \<and> \<not> renderPending s")
    case True
    then have u: "?u = s" by simp
    have "\<forall>t \<in> set (lp_timers s). timerRef s = Some (fst t)"
      using assms(1) by (simp add: lp_inv_def)
    from lp_commit_armed[OF this, of ms] True
    have "lp_step ms e s =
        s\<lparr>lp_timers := [(lp_nextTimerId s, lp_clock s + ms, ())],
          timerRef := Some (lp_nextTimerId s), lp_nextTimerId := Suc (lp_nextTimerId s)\<rparr>"
      unfolding Rerender lp_step.simps u by simp
    then show ?thesis using True by (simp add: lp_inv_def)
  next
    case False
    then have b: "(startLongPress s \<and> \<not> renderPending s) = False" by blast
    have u: "?u = s\<lparr>startLongPress := False, renderPending := False\<rparr>"
      by (simp only: b)
    have "\<not> startLongPress s \<or> lp_timers s = []"
      using b assms(1) unfolding lp_inv_def by blast
    then have e: "lp_timers s = []"
      using assms(1) lp_inv_no_timers by blast
    have "lp_commit ms (s\<lparr>startLongPress := False, renderPending := False\<rparr>)
        = s\<lparr>startLongPress := False, renderPending := False\<rparr>"
      by (rule lp_commit_idle) (simp_all add: e)
    then have "lp_step ms e s = s\<lparr>startLongPress := False, renderPending := False\<rparr>"
      unfolding Rerender lp_step.simps u by simp
    then show ?thesis using e by (simp add: lp_inv_def)
  qed
next
  case Render
  then show ?thesis using render_result[OF assms(1), of ms] assms(1)
    by (auto simp: lp_inv_def)
next
  case (Elapse d)
  let ?s1 = "s\<lparr>lp_clock := lp_clock s + d\<rparr>"
  let ?s2 = "s\<lparr>lp_clock := lp_clock s + d, lp_timers := [],
              invoked := invoked s @ [OnLongPress], renderPending := True\<rparr>"
  from advance_lp[OF assms(1), of d]
  consider "lp_advance d s = ?s1" | "startLongPress s" "lp_advance d s = ?s2" by blast
  then show ?thesis
  proof cases
    case 1
    have i1: "lp_inv ?s1" using assms(1) by (simp add: lp_inv_def)
    from render_result[OF i1, of ms] 1 Elapse i1 show ?thesis
      by (auto simp: lp_inv_def)
  next
    case 2
    have i2: "lp_inv ?s2" using 2(1) by (simp add: lp_inv_def)
    from render_result[OF i2, of ms] 2 Elapse show ?thesis
      by (auto simp: lp_inv_def)
  qed
next
  case (ElapseUnrendered d)
  then show ?thesis using assms(2) by simp
qed

lemma lp_fold_potential:
  assumes "lp_inv s" "list_all rendered es"
  shows "\<exists>xs. invoked (fold (lp_step ms) es s) = invoked s @ xs
           \<and> length xs + (if startLongPress (fold (lp_step ms) es s) then 1 else 0)
               \<le> (if startLongPress s then 1 else (0::nat))
           \<and> lp_inv (fold (lp_step ms) es s)"
  using assms
proof (induction es arbitrary: s)
  case Nil
  then show ?case by simp
next
  case (Cons e es)
  from lp_step_potential[OF Cons.prems(1), of e ms] Cons.prems(2) obtain xs where
    x: "invoked (lp_step ms e s) = invoked s @ xs"
       "length xs + (if startLongPress (lp_step ms e s) then 1 else 0)
               \<le> (if startLongPress s then 1 else (0::nat))"
       "lp_inv (lp_step ms e s)"
    by auto
  from Cons.IH[OF x(3)] Cons.prems(2) obtain ys where
    y: "invoked (fold (lp_step ms) es (lp_step ms e s)) = invoked (lp_step ms e s) @ ys"
       "length ys + (if startLongPress (fold (lp_step ms) es (lp_step ms e s)) then 1 else 0)
               \<le> (if startLongPress (lp_step ms e s) then 1 else (0::nat))"
       "lp_inv (fold (lp_step ms) es (lp_step ms e s))"
    by auto
  have "invoked (fold (lp_step ms) (e # es) s) = invoked s @ (xs @ ys)"
    using x(1) y(1) by simp
  moreover have "length (xs @ ys)
      + (if startLongPress (fold (lp_step ms) (e # es) s) then 1 else 0)
               \<le> (if startLongPress s then 1 else (0::nat))"
    using x(2) y(2) by (auto split: if_splits)
  ultimately show ?case using y(3) by (metis fold_simps(2))
qed

lemma down_inv:
  assumes "lp_inv s"
  shows "lp_inv (lp_onPointerDown ms p s)" "invoked (lp_onPointerDown ms p s) = invoked s"
proof -
  show "lp_inv (lp_onPointerDown ms p s)"
  proof (cases "startLongPress s")
    case True
    then have "lp_onPointerDown ms p s = s\<lparr>startPos := Some p, renderPending := False\<rparr>"
      by (simp add: lp_onPointerDown_def)
    moreover have "lp_inv (s\<lparr>startPos := Some p, renderPending := False\<rparr>)"
      using assms unfolding lp_inv_def by auto
    ultimately show ?thesis by simp
  next
    case False
    have e: "lp_timers s = []" using False assms lp_inv_no_timers by blast
    have r: "\<not> renderPending s" using False assms unfolding lp_inv_def by blast
    let ?t = "s\<lparr>startPos := Some p, startLongPress := True\<rparr>"
    have "\<forall>t \<in> set (lp_timers ?t). timerRef ?t = Some (fst t)" using e by simp
    from lp_commit_armed[OF this, of ms] False
    have "lp_onPointerDown ms p s =
        ?t\<lparr>lp_timers := [(lp_nextTimerId s, lp_clock s + ms, ())],
          timerRef := Some (lp_nextTimerId s), lp_nextTimerId := Suc (lp_nextTimerId s)\<rparr>"
      by (simp add: lp_onPointerDown_def)
    then show ?thesis using r by (simp add: lp_inv_def)
  qed
  show "invoked (lp_onPointerDown ms p s) = invoked s"
    by (simp add: lp_onPointerDown_def lp_commit_def lp_effect_def Let_def)
qed

lemma lp_step_inv:
  assumes "lp_inv s"
  shows "lp_inv (lp_step ms e s)"
proof (cases "rendered e")
  case True
  from lp_step_potential[OF assms True] show ?thesis by blast
next
  case False
  show ?thesis
  proof (cases e)
    case (PointerDown p)
    then show ?thesis using down_inv(1)[OF assms] by simp
  next
    case (ElapseUnrendered d)
    from advance_lp[OF assms, of d] assms show ?thesis
      unfolding ElapseUnrendered by (auto simp: lp_inv_def)
  qed (use False in simp_all)
qed

lemma lp_reachable_inv: "lp_reachable ms s \<Longrightarrow> lp_inv s"
proof (induction rule: lp_reachable.induct)
  case lp_reach_mount
  show ?case by (simp add: lp_inv_def lp_mount_def)
next
  case (lp_reach_step s e)
  then show ?case by (simp add: lp_step_inv)
qed

lemma hold_fired:
  assumes "\<not> startLongPress t" "lp_timers t = []" "\<not> renderPending t"
    "list_all (holdEvent p) hs"
  shows "\<not> startLongPress (fold (lp_step ms) hs t) \<and> lp_timers (fold (lp_step ms) hs t) = []
       \<and> invoked (fold (lp_step ms) hs t) = invoked t"
  using assms
proof (induction hs arbitrary: t)
  case Nil
  then show ?case by simp
next
  case (Cons e hs)
  have "\<not> startLongPress (lp_step ms e t) \<and> lp_timers (lp_step ms e t) = []
       \<and> \<not> renderPending (lp_step ms e t) \<and> invoked (lp_step ms e t) = invoked t"
    using Cons.prems
    by (cases e)
      (simp_all add: lp_onPointerMove_def lp_advance_def lp_render_def dueTimers_def)
  then show ?case using Cons.IH[of "lp_step ms e t"] Cons.prems(4) by simp
qed

lemma hold_armed:
  assumes "startLongPress t" "lp_timers t = [(n, D, ())]" "timerRef t = Some n"
    "startPos t = Some p" "\<not> renderPending t" "lp_clock t < D" "list_all (holdEvent p) hs"
    "D \<le> lp_clock t + elapsed hs"
  shows "\<not> startLongPress (fold (lp_step ms) hs t) \<and> lp_timers (fold (lp_step ms) hs t) = []
       \<and> invoked (fold (lp_step ms) hs t) = invoked t @ [OnLongPress]"
  using assms
proof (induction hs arbitrary: t)
  case Nil
  then show ?case by simp
next
  case (Cons e hs)
  have he: "holdEvent p e" and hr: "list_all (holdEvent p) hs" using Cons.prems(7) by simp_all
  show ?case
  proof (cases e)
    case (PointerMove q)
    then have "lp_step ms e t = t"
      using he Cons.prems(1,4) by (simp add: lp_onPointerMove_def Let_def)
    moreover have "D \<le> lp_clock t + elapsed hs" using Cons.prems(8) PointerMove by simp
    ultimately show ?thesis using Cons.IH[of t] Cons.prems(1-6) hr by simp
  next
    case (Elapse d)
    let ?t1 = "t\<lparr>lp_clock := lp_clock t + d\<rparr>"
    show ?thesis
    proof (cases "D \<le> lp_clock t + d")
      case True
      have i: "lp_inv ?t1" using Cons.prems(1-3,5) by (simp add: lp_inv_def)
      have f: "find (\<lambda>x. fst x = n) (lp_timers ?t1) = Some (n, D, ())"
        using Cons.prems(2) by simp
      let ?t2 = "?t1\<lparr>lp_timers := [], invoked := invoked ?t1 @ [OnLongPress],
                      renderPending := True\<rparr>"
      have "lp_advance d t = lp_fire n ?t1"
        using True Cons.prems(2) by (simp add: lp_advance_def Let_def dueTimers_def)
      also have "\<dots> = ?t2" by (rule fire_armed(1)[OF i f])
      finally have a: "lp_advance d t = ?t2" .
      have i2: "lp_inv ?t2" using Cons.prems(1) by (simp add: lp_inv_def)
      have r: "lp_step ms e t = ?t2\<lparr>startLongPress := False, renderPending := False\<rparr>"
        using render_result[OF i2, of ms] Elapse a by simp
      from hold_fired[of "lp_step ms e t" p hs ms] hr show ?thesis by (simp add: r)
    next
      case False
      then have a: "lp_advance d t = ?t1"
        using Cons.prems(2) by (simp add: lp_advance_def Let_def dueTimers_def)
      have r: "lp_step ms e t = ?t1"
        using Elapse a Cons.prems(5) by (simp add: lp_render_def)
      have "D \<le> lp_clock ?t1 + elapsed hs" using Cons.prems(8) Elapse by simp
      moreover have "lp_clock ?t1 < D" using False by simp
      ultimately show ?thesis using Cons.IH[of ?t1] Cons.prems(1-5) hr by (simp add: r)
    qed
  qed (use he in simp_all)
qed

section \<open>Copying a workout\<close>

text \<open>
  Claim C10. For a workout \<open>source\<close> that \<open>copyWorkout\<close> finds under \<open>workoutId\<close>, the
  store gains exactly one workout, appended after the old ones, which stay as they
  were. The new workout has the id that \<open>generateId\<close> returned, the date \<open>targetDate\<close>,
  \<open>completed = false\<close>, \<open>elapsedSeconds = 0\<close> and \<open>startTimestamp = null\<close>; its exercises are
  those of the source, set by set, with the same weight and reps and with \<open>completed\<close>
  reset. When no workout has the id \<open>workoutId\<close>, nothing changes.
\<close>

theorem copyWorkout_adds_reset_copy:
  "(\<forall>source. find (\<lambda>w. w_id w = workoutId) (workouts g) = Some source \<longrightarrow>
      (\<exists>nw. workouts (copyWorkout gen workoutId targetDate g) = workouts g @ [nw]
          \<and> calls (copyWorkout gen workoutId targetDate g) = calls g @ [AddWorkout nw]
          \<and> w_id nw = gen (idCount g) \<and> date nw = targetDate
          \<and> \<not> completed nw \<and> elapsedSeconds nw = 0 \<and> startTimestamp nw = None
          \<and> title nw = title source \<and> w_note nw = w_note source
          \<and> list_all2
               (\<lambda>e' e. ex_id e' = ex_id e \<and> defId e' = defId e
                  \<and> list_all2
                       (\<lambda>s' s. s_id s' = s_id s \<and> weight s' = weight s \<and> reps s' = reps s
                          \<and> \<not> s_completed s')
                       (sets e') (sets e))
               (exercises nw) (exercises source)))
   \<and> (find (\<lambda>w. w_id w = workoutId) (workouts g) = None \<longrightarrow>
        copyWorkout gen workoutId targetDate g = g)"
  by (auto simp: copyWorkout_def addWorkout_def Let_def list_all2_map1 list_all2_same
           intro!: list_all2_refl)

theorem copyWorkout_adds_reset_copy_witness:
  "find (\<lambda>w. w_id w = ''a'') (workouts gymA) = Some wkA
   \<and> (\<exists>nw. workouts (copyWorkout (generateId env0) ''a'' ''2024-05-02'' gymA) = workouts gymA @ [nw]
         \<and> w_id nw = ''g'' \<and> date nw = ''2024-05-02'' \<and> \<not> completed nw
         \<and> map (\<lambda>e. map s_completed (sets e)) (exercises nw) = [[False]]
         \<and> map (\<lambda>e. map weight (sets e)) (exercises nw) = [[60]])
   \<and> find (\<lambda>w. w_id w = ''zz'') (workouts gymA) = None
   \<and> copyWorkout (generateId env0) ''zz'' ''2024-05-02'' gymA = gymA"
proof -
  have f: "find (\<lambda>w. w_id w = ''a'') (workouts gymA) = Some wkA"
    by (simp add: gymA_def wkA_def)
  have n: "find (\<lambda>w. w_id w = ''zz'') (workouts gymA) = None"
    by (simp add: gymA_def wkA_def)
  from copyWorkout_adds_reset_copy[of "''a''" gymA "generateId env0" "''2024-05-02''"] f
  obtain nw where nw:
    "workouts (copyWorkout (generateId env0) ''a'' ''2024-05-02'' gymA) = workouts gymA @ [nw]"
    "w_id nw = generateId env0 (idCount gymA)" "date nw = ''2024-05-02''" "\<not> completed nw"
    by blast
  have e: "workouts (copyWorkout (generateId env0) ''a'' ''2024-05-02'' gymA) ! 1 = nw"
    using nw(1) by (simp add: gymA_def)
  have "map (\<lambda>e. map s_completed (sets e)) (exercises nw) = [[False]]"
    "map (\<lambda>e. map weight (sets e)) (exercises nw) = [[60]]"
    unfolding e[symmetric]
    by (simp_all add: copyWorkout_def gymA_def wkA_def addWorkout_def Let_def)
  moreover have "w_id nw = ''g''" using nw(2) by (simp add: env0_def gymA_def)
  ultimately show ?thesis
    using f n nw copyWorkout_adds_reset_copy[of "''zz''" gymA "generateId env0" "''2024-05-02''"]
    by auto
qed

section \<open>Hydration and local edits\<close>

text \<open>
  Claim C1. In every reachable state of a mounted editor whose draft is dirty, a refresh
  of the provider's \<open>workouts\<close> with any payload \<open>ws\<close> leaves the working copy as it is:
  nothing but the provider's list changes. And when the hydration effect does load an
  existing identity \<open>rid\<close>, that identity was not the loaded one, \<open>isDirty\<close> was false, and
  the workout it loads is the one the store holds under \<open>rid\<close>.
\<close>

theorem dirty_wins_over_hydration:
  "(reachable env s \<and> mounted s \<and> isDirtyRef s \<longrightarrow>
      (\<forall>ws. workout (step env (Refresh ws) s) = workout s
          \<and> step env (Refresh ws) s = s\<lparr>gym := (gym s)\<lparr>workouts := ws\<rparr>\<rparr>))
   \<and> (\<forall>rid w. routeId s = Some rid \<and> rid \<noteq> ''new''
          \<and> snd (hydration_effect env s) = Some w \<longrightarrow>
        loadedIdRef s \<noteq> Some rid \<and> \<not> isDirtyRef s
        \<and> find (\<lambda>x. w_id x = rid) (workouts (gym s)) = Some w)"
proof (intro conjI impI allI)
  fix ws
  assume a: "reachable env s \<and> mounted s \<and> isDirtyRef s"
  then have "settled s" using reachable_INV[of env s] by (simp add: INV_def)
  then have st: "settled (s\<lparr>gym := (gym s)\<lparr>workouts := ws\<rparr>\<rparr>)"
    using a by (simp add: settled_def)
  show eq: "step env (Refresh ws) s = s\<lparr>gym := (gym s)\<lparr>workouts := ws\<rparr>\<rparr>"
    using a commit_settled[OF st] by (simp add: step_def)
  show "workout (step env (Refresh ws) s) = workout s"
    by (simp add: eq)
next
  fix rid w
  assume h: "routeId s = Some rid \<and> rid \<noteq> ''new'' \<and> snd (hydration_effect env s) = Some w"
  then show "loadedIdRef s \<noteq> Some rid" "\<not> isDirtyRef s"
    "find (\<lambda>x. w_id x = rid) (workouts (gym s)) = Some w"
    by (auto simp: hydration_effect_def split: if_splits option.splits)
qed

theorem dirty_wins_over_hydration_witness:
  "reachable env0 sDirty \<and> mounted sDirty \<and> isDirtyRef sDirty
   \<and> workout (step env0 (Refresh [wkB]) sDirty) = workout sDirty
   \<and> title (workout (step env0 (Refresh [wkB]) sDirty)) = ''Legs''
   \<and> routeId sUnloaded = Some ''a'' \<and> snd (hydration_effect env0 sUnloaded) = Some wkA
   \<and> loadedIdRef sUnloaded \<noteq> Some ''a'' \<and> \<not> isDirtyRef sUnloaded"
proof -
  have r: "reachable env0 sDirty"
    unfolding sDirty_def by (intro reachable.intros)
  have d: "mounted sDirty \<and> isDirtyRef sDirty"
    by code_simp
  have t: "title (workout sDirty) = ''Legs''"
    by code_simp
  have u: "routeId sUnloaded = Some ''a'' \<and> ''a'' \<noteq> ''new''
      \<and> snd (hydration_effect env0 sUnloaded) = Some wkA"
    by code_simp
  show ?thesis
    using dirty_wins_over_hydration[where s = sDirty and env = env0] r d t
      dirty_wins_over_hydration[where s = sUnloaded and env = env0] u
    by auto
qed

section \<open>Finishing or leaving an empty draft\<close>

text \<open>
  Claim C4. When the draft has no exercises, \<open>handleFinish\<close> and \<open>handleSaveBack\<close> call
  \<open>deleteWorkout\<close> for the draft's identity exactly when the store holds a record with
  it, and call neither \<open>addWorkout\<close> nor \<open>updateWorkout\<close>; afterwards the store holds no
  record with that identity and the component is unmounted. From a reachable state, no
  timer that runs later touches the store either.
\<close>

theorem deletion_on_empty:
  "exercises (workout s) = [] \<longrightarrow>
     (\<forall>h \<in> {handleFinish env now s, handleSaveBack s}.
        calls (gym h) = calls (gym s)
           @ (if list_ex (\<lambda>w. w_id w = w_id (workout s)) (workouts (gym s))
              then [DeleteWorkout (w_id (workout s))] else [])
      \<and> workouts (gym h) = filter (\<lambda>w. w_id w \<noteq> w_id (workout s)) (workouts (gym s))
      \<and> \<not> list_ex (\<lambda>w. w_id w = w_id (workout s)) (workouts (gym h))
      \<and> \<not> mounted h
      \<and> (reachable env s \<longrightarrow> (\<forall>d. gym (advance env d h) = gym h)))"
proof (intro impI ballI)
  fix h
  assume e: "exercises (workout s) = []"
    and h: "h \<in> {handleFinish env now s, handleSaveBack s}"
  let ?P = "\<lambda>w. w_id w = w_id (workout s)"
  let ?t = "(if list_ex ?P (workouts (gym s))
             then s\<lparr>gym := deleteWorkout (w_id (workout s)) (gym s)\<rparr> else s)"
  have hu: "h = unmount ?t"
    using e h by (auto simp: handleFinish_def handleSaveBack_def)
  have g: "gym h = gym ?t" by (simp add: hu unmount_def)
  have c: "calls (gym h) = calls (gym s)
           @ (if list_ex ?P (workouts (gym s)) then [DeleteWorkout (w_id (workout s))] else [])"
    by (simp add: g deleteWorkout_def)
  have w: "workouts (gym h) = filter (\<lambda>w. w_id w \<noteq> w_id (workout s)) (workouts (gym s))"
    using filter_neq_id[of ?P "workouts (gym s)"] by (simp add: g deleteWorkout_def)
  have n: "\<not> list_ex ?P (workouts (gym h))"
    unfolding w by (simp add: list_ex_iff)
  have m: "\<not> mounted h" by (simp add: hu unmount_def)
  have a: "reachable env s \<longrightarrow> (\<forall>d. gym (advance env d h) = gym h)"
  proof (intro impI allI)
    fix d assume "reachable env s"
    then have i: "INV s" by (rule reachable_INV)
    have "timers_ok ?t" using i by (simp add: INV_def timers_ok_def)
    moreover have "auto_weak ?t" using i auto_ok_weak[of s] by (simp add: INV_def auto_weak_def)
    ultimately have "noAuto h" unfolding hu by (rule unmount_inv)
    then show "gym (advance env d h) = gym h" by (rule advance_noAuto)
  qed
  show "calls (gym h) = calls (gym s)
           @ (if list_ex ?P (workouts (gym s)) then [DeleteWorkout (w_id (workout s))] else [])
      \<and> workouts (gym h) = filter (\<lambda>w. w_id w \<noteq> w_id (workout s)) (workouts (gym s))
      \<and> \<not> list_ex ?P (workouts (gym h))
      \<and> \<not> mounted h
      \<and> (reachable env s \<longrightarrow> (\<forall>d. gym (advance env d h) = gym h))"
    using c w n m a by blast
qed

theorem deletion_on_empty_witness:
  "exercises (workout sEmptied) = [] \<and> reachable env0 sEmptied
   \<and> list_ex (\<lambda>w. w_id w = w_id (workout sEmptied)) (workouts (gym sEmptied))
   \<and> calls (gym (handleSaveBack sEmptied)) = [DeleteWorkout ''a'']
   \<and> calls (gym (handleFinish env0 0 sEmptied)) = [DeleteWorkout ''a'']
   \<and> workouts (gym (handleSaveBack sEmptied)) = []
   \<and> gym (advance env0 650 (handleSaveBack sEmptied)) = gym (handleSaveBack sEmptied)"
proof -
  have r: "reachable env0 sEmptied"
    unfolding sEmptied_def by (intro reachable.intros)
  have e: "exercises (workout sEmptied) = []"
    "list_ex (\<lambda>w. w_id w = w_id (workout sEmptied)) (workouts (gym sEmptied))"
    "calls (gym sEmptied) = []" "w_id (workout sEmptied) = ''a''"
    "workouts (gym sEmptied) = [wkA]" "w_id wkA = ''a''"
    by code_simp+
  show ?thesis
    using deletion_on_empty[where s = sEmptied and env = env0 and now = 0] r e
    by simp
qed

section \<open>The workout timer\<close>

text \<open>
  Claim C5, as stated, fails: on a completed draft \<open>toggleTimer\<close> returns at once, so a
  paused completed draft is not started; and \<open>handleFinish\<close> on a draft without exercises
  leaves the route without setting \<open>completed\<close>.
\<close>

theorem timer_semantics_counterexample:
  "completed (workout sDone) \<and> startTimestamp (workout sDone) = None
   \<and> startTimestamp (workout (toggleTimer env0 1000 sDone)) \<noteq> Some 1000
   \<and> exercises (workout sNew) = []
   \<and> \<not> completed (workout (handleFinish env0 1000 sNew))"
  by code_simp

text \<open>
  Claim C5, amended. In a reachable state of the mounted editor: on a draft that is not
  completed, \<open>toggleTimer\<close> with a running timer (\<open>startTimestamp\<close> a non-zero number
  \<open>st\<close>) adds \<open>(now - st) / 1000\<close> to \<open>elapsedSeconds\<close> and sets \<open>startTimestamp\<close> to
  \<open>null\<close>, and with a paused timer sets \<open>startTimestamp\<close> to \<open>now\<close>; on a completed draft
  it does nothing. On a draft with at least one exercise, \<open>handleFinish\<close> folds a running
  session into \<open>elapsedSeconds\<close>, clears \<open>startTimestamp\<close> and sets \<open>completed\<close>.
  \<open>handleResume\<close> changes \<open>completed\<close> to \<open>false\<close> and nothing else, so \<open>startTimestamp\<close>
  stays as it is.
\<close>

theorem timer_semantics:
  assumes "reachable env s" and "mounted s"
  shows "(\<not> completed (workout s) \<longrightarrow>
            (\<forall>st. startTimestamp (workout s) = Some st \<and> st \<noteq> 0 \<longrightarrow>
               workout (toggleTimer env now s) =
                 (workout s)\<lparr>startTimestamp := None,
                             elapsedSeconds := elapsedSeconds (workout s) + (now - st) / 1000\<rparr>)
          \<and> (startTimestamp (workout s) = None \<longrightarrow>
               workout (toggleTimer env now s) = (workout s)\<lparr>startTimestamp := Some now\<rparr>))
       \<and> (completed (workout s) \<longrightarrow> toggleTimer env now s = s)
       \<and> (exercises (workout s) \<noteq> [] \<longrightarrow>
            (\<forall>st. startTimestamp (workout s) = Some st \<and> st \<noteq> 0 \<longrightarrow>
               workout (handleFinish env now s) =
                 (workout s)\<lparr>completed := True, startTimestamp := None,
                             elapsedSeconds := elapsedSeconds (workout s) + (now - st) / 1000\<rparr>)
          \<and> (startTimestamp (workout s) = None \<longrightarrow>
               workout (handleFinish env now s) =
                 (workout s)\<lparr>completed := True, startTimestamp := None\<rparr>))
       \<and> workout (handleResume env s) = (workout s)\<lparr>completed := False\<rparr>"
proof -
  have tg: "\<not> completed (workout s) \<Longrightarrow> workout (toggleTimer env now s) = toggled now (workout s)"
    using assms by (simp add: toggleTimer_def Let_def markDirty_def workout_dirty)
  have fi: "exercises (workout s) \<noteq> [] \<Longrightarrow>
      workout (handleFinish env now s) = finished now (workout s)"
    using assms by (simp add: handleFinish_def Let_def workout_saved)
  have re: "workout (handleResume env s) = resumed (workout s)"
    using assms by (simp add: handleResume_def Let_def workout_saved)
  show ?thesis
    using tg fi re
    by (auto simp: toggled_def finished_def resumed_def toggleTimer_def Let_def)
qed

theorem timer_semantics_witness:
  "reachable env0 sRun \<and> mounted sRun \<and> \<not> completed (workout sRun)
   \<and> exercises (workout sRun) \<noteq> [] \<and> startTimestamp (workout sRun) = Some 1000
   \<and> elapsedSeconds (workout (toggleTimer env0 6000 sRun)) = 5
   \<and> startTimestamp (workout (toggleTimer env0 6000 sRun)) = None
   \<and> elapsedSeconds (workout (handleFinish env0 4000 sRun)) = 3
   \<and> completed (workout (handleFinish env0 4000 sRun))
   \<and> startTimestamp (workout (handleFinish env0 4000 sRun)) = None
   \<and> reachable env0 sDone \<and> mounted sDone \<and> completed (workout sDone)
   \<and> toggleTimer env0 1000 sDone = sDone
   \<and> \<not> completed (workout (handleResume env0 sDone))
   \<and> startTimestamp (workout (handleResume env0 sDone)) = None"
proof -
  have r: "reachable env0 sRun" "reachable env0 sDone"
    unfolding sRun_def sDone_def by (intro reachable.intros)+
  have e: "mounted sRun" "\<not> completed (workout sRun)" "exercises (workout sRun) \<noteq> []"
    "startTimestamp (workout sRun) = Some 1000" "elapsedSeconds (workout sRun) = 0"
    "mounted sDone" "completed (workout sDone)" "startTimestamp (workout sDone) = None"
    by code_simp+
  show ?thesis
    using timer_semantics[OF r(1) e(1), of 6000] timer_semantics[OF r(1) e(1), of 4000]
      timer_semantics[OF r(2) e(6), of 1000] r e
    by simp
qed

section \<open>When the autosave schedules and flushes\<close>

text \<open>
  Claim C3. The autosave effect schedules nothing and leaves the store alone when
  \<open>isHydrating\<close> is true, \<open>isDirty\<close> is false or the draft has no exercises. In a
  reachable state in which one of the three holds, no autosave timer is pending, so no
  flush happens however much time passes. A hydration sets \<open>isHydrating\<close>, clears
  \<open>isDirty\<close>, calls no store function and schedules the reset of \<open>isHydrating\<close> with
  delay \<open>0\<close>; a refresh or a change of route writes nothing to the store, and when it
  has hydrated the draft, no store call follows from it later.
\<close>

theorem autosave_guard:
  "(isHydratingRef s \<or> \<not> isDirtyRef s \<or> exercises (workout s) = [] \<longrightarrow>
      autosave_effect s = s\<lparr>autosaveCleanup := False\<rparr>)
   \<and> (reachable env s
        \<and> (isHydratingRef s \<or> \<not> isDirtyRef s \<or> exercises (workout s) = []) \<longrightarrow>
      noAuto s \<and> (\<forall>d. gym (advance env d s) = gym s))
   \<and> (\<forall>w. snd (hydration_effect env s) = Some w \<longrightarrow>
        isHydratingRef (fst (hydration_effect env s))
        \<and> \<not> isDirtyRef (fst (hydration_effect env s))
        \<and> calls (gym (fst (hydration_effect env s))) = calls (gym s)
        \<and> remote (gym (fst (hydration_effect env s))) = remote (gym s)
        \<and> timers (fst (hydration_effect env s))
            = timers s @ [(nextTimerId s, clock s, ClearHydrating)])
   \<and> (reachable env s \<and> mounted s \<longrightarrow>
        (\<forall>e. (\<exists>ws. e = Refresh ws) \<or> (\<exists>r. e = SetRoute r) \<longrightarrow>
           calls (gym (step env e s)) = calls (gym s)
           \<and> remote (gym (step env e s)) = remote (gym s)
           \<and> (isHydratingRef (step env e s) \<longrightarrow>
                (\<forall>d. calls (gym (advance env d (step env e s))) = calls (gym s)))))"
proof -
  have p1: "isHydratingRef s \<or> \<not> isDirtyRef s \<or> exercises (workout s) = [] \<longrightarrow>
      autosave_effect s = s\<lparr>autosaveCleanup := False\<rparr>"
    by (auto simp: autosave_effect_def)
  have p2: "reachable env s
        \<and> (isHydratingRef s \<or> \<not> isDirtyRef s \<or> exercises (workout s) = []) \<longrightarrow>
      noAuto s \<and> (\<forall>d. gym (advance env d s) = gym s)"
  proof
    assume "reachable env s
        \<and> (isHydratingRef s \<or> \<not> isDirtyRef s \<or> exercises (workout s) = [])"
    then have n: "noAuto s" using reachable_INV guard_noAuto by blast
    then show "noAuto s \<and> (\<forall>d. gym (advance env d s) = gym s)"
      using advance_noAuto(1) by blast
  qed
  have p3: "\<forall>w. snd (hydration_effect env s) = Some w \<longrightarrow>
        isHydratingRef (fst (hydration_effect env s))
        \<and> \<not> isDirtyRef (fst (hydration_effect env s))
        \<and> calls (gym (fst (hydration_effect env s))) = calls (gym s)
        \<and> remote (gym (fst (hydration_effect env s))) = remote (gym s)
        \<and> timers (fst (hydration_effect env s))
            = timers s @ [(nextTimerId s, clock s, ClearHydrating)]"
  proof (intro allI impI)
    fix w assume h: "snd (hydration_effect env s) = Some w"
    have "timers (fst (hydration_effect env s))
            = timers s @ [(nextTimerId s, clock s, ClearHydrating)]"
      using h by (auto simp: hydration_effect_def setTimeout_def split: option.splits if_splits)
    then show "isHydratingRef (fst (hydration_effect env s))
        \<and> \<not> isDirtyRef (fst (hydration_effect env s))
        \<and> calls (gym (fst (hydration_effect env s))) = calls (gym s)
        \<and> remote (gym (fst (hydration_effect env s))) = remote (gym s)
        \<and> timers (fst (hydration_effect env s))
            = timers s @ [(nextTimerId s, clock s, ClearHydrating)]"
      using hyd_Some_hydrating[OF h] by simp
  qed
  have p4: "reachable env s \<and> mounted s \<longrightarrow>
        (\<forall>e. (\<exists>ws. e = Refresh ws) \<or> (\<exists>r. e = SetRoute r) \<longrightarrow>
           calls (gym (step env e s)) = calls (gym s)
           \<and> remote (gym (step env e s)) = remote (gym s)
           \<and> (isHydratingRef (step env e s) \<longrightarrow>
                (\<forall>d. calls (gym (advance env d (step env e s))) = calls (gym s))))"
  proof (intro allI impI)
    fix e
    assume a: "reachable env s \<and> mounted s"
      and e: "(\<exists>ws. e = Refresh ws) \<or> (\<exists>r. e = SetRoute r)"
    have c: "calls (gym (step env e s)) = calls (gym s)"
      using a e by (auto simp: step_def)
    have c': "remote (gym (step env e s)) = remote (gym s)"
      using a e by (auto simp: step_def)
    have r: "reachable env (step env e s)" using a by (simp add: reach_step)
    have "isHydratingRef (step env e s) \<longrightarrow>
          (\<forall>d. calls (gym (advance env d (step env e s))) = calls (gym s))"
    proof (intro impI allI)
      fix d assume "isHydratingRef (step env e s)"
      then have "noAuto (step env e s)" using r reachable_INV guard_noAuto by blast
      then show "calls (gym (advance env d (step env e s))) = calls (gym s)"
        using c advance_noAuto(1)[of "step env e s" env d] by simp
    qed
    then show "calls (gym (step env e s)) = calls (gym s)
           \<and> remote (gym (step env e s)) = remote (gym s)
           \<and> (isHydratingRef (step env e s) \<longrightarrow>
                (\<forall>d. calls (gym (advance env d (step env e s))) = calls (gym s)))"
      using c c' by blast
  qed
  show ?thesis by (rule conjI[OF p1 conjI[OF p2 conjI[OF p3 p4]]])
qed

theorem autosave_guard_witness:
  "isHydratingRef sHydrated \<and> autosave_effect sHydrated = sHydrated\<lparr>autosaveCleanup := False\<rparr>
   \<and> reachable env0 sHydrated \<and> gym (advance env0 650 sHydrated) = gym sHydrated
   \<and> snd (hydration_effect env0 sUnloaded) = Some wkA
   \<and> isHydratingRef (fst (hydration_effect env0 sUnloaded))
   \<and> reachable env0 sWaiting \<and> mounted sWaiting
   \<and> isHydratingRef (step env0 (Refresh [wkA]) sWaiting)
   \<and> calls (gym (advance env0 650 (step env0 (Refresh [wkA]) sWaiting))) = calls (gym sWaiting)"
proof -
  have r: "reachable env0 sHydrated" "reachable env0 sWaiting"
    unfolding sHydrated_def sWaiting_def by (intro reachable.intros)+
  have e: "isHydratingRef sHydrated" "snd (hydration_effect env0 sUnloaded) = Some wkA"
    "mounted sWaiting" "isHydratingRef (step env0 (Refresh [wkA]) sWaiting)"
    by code_simp+
  note g1 = autosave_guard[where s = sHydrated and env = env0]
  note g2 = autosave_guard[where s = sUnloaded and env = env0]
  note g3 = autosave_guard[where s = sWaiting and env = env0]
  have a1: "autosave_effect sHydrated = sHydrated\<lparr>autosaveCleanup := False\<rparr>"
    using g1 e(1) by (elim conjE) simp
  have a2: "gym (advance env0 650 sHydrated) = gym sHydrated"
    using g1 e(1) r(1) by (elim conjE) simp
  have a3: "isHydratingRef (fst (hydration_effect env0 sUnloaded))"
    using g2 e(2) by (elim conjE) simp
  have a4: "calls (gym (advance env0 650 (step env0 (Refresh [wkA]) sWaiting))) = calls (gym sWaiting)"
    using g3 e(3,4) r(2) by (elim conjE) blast
  show ?thesis using a1 a2 a3 a4 r e by simp
qed

section \<open>Autosave coalescing\<close>

text \<open>
  Claim C2, as stated, fails in two ways. An edit of the title of a draft without
  exercises is a local edit, and no flush follows it, however long the wait. And
  \<open>addExercise\<close> is a local edit that writes to the store at once and again when its
  debounce timer fires: two flushes for one edit.
\<close>

theorem quiet_window_autosave_counterexample:
  "mounted sFresh \<and> \<not> isHydratingRef sFresh \<and> isFieldEdit (EditTitle ''Leg day'')
   \<and> calls (gym sFresh) = []
   \<and> calls (gym (fold (step env0) [EditTitle ''Leg day'', Advance 650] sFresh)) = []
   \<and> timers (fold (step env0) [EditTitle ''Leg day'', Advance 650] sFresh) = []
   \<and> length (calls (gym (fold (step env0) [AddExercise ''1'', Advance 650] sFresh))) = 2"
  by code_simp

text \<open>
  Claim C2, amended. From a reachable state of the mounted editor that is not hydrating,
  let a field edit happen, followed by further field edits, each less than 650 ms after
  the one before, and let the draft have an exercise at the end. Then no store call is
  made during the burst; at its end the draft is dirty and exactly one autosave timer is
  pending, due 650 ms after the last edit, holding the final draft; once 650 ms have
  passed the store has received exactly one call, \<open>updateWorkout\<close> of the final draft if
  the store held its identity and \<open>addWorkout\<close> otherwise, \<open>isDirty\<close> is false and no
  autosave timer is pending. In every reachable state at most one autosave timer is
  pending. And the callback of an autosave timer leaves \<open>isDirty\<close> true exactly when it
  was true and the captured \<open>editSeqRef\<close> differs from the current one (in a state
  whose route \<open>new\<close> is loaded, so that the render after the flush starts no new draft).
\<close>

theorem quiet_window_autosave:
  "(reachable env s \<and> mounted s \<and> \<not> isHydratingRef s \<and> isFieldEdit e0
      \<and> (\<forall>(d, e) \<in> set b. d < 650 \<and> isFieldEdit e)
      \<and> exercises (workout (runBurst env b (step env e0 s))) \<noteq> [] \<longrightarrow>
      (let s' = runBurst env b (step env e0 s) in
         calls (gym s') = calls (gym s) \<and> isDirtyRef s'
         \<and> (\<exists>h. filter isAuto (timers s') =
               [(h, clock s' + 650,
                 AutosaveFlush (workout s') (editSeqRef s') (workouts (gym s)))])
         \<and> (\<forall>d\<ge>650.
               calls (gym (advance env d s'))
                 = calls (gym s) @ [flushCall (workouts (gym s)) (workout s')]
               \<and> \<not> isDirtyRef (advance env d s') \<and> noAuto (advance env d s'))))
   \<and> (reachable env s \<longrightarrow> length (filter isAuto (timers s)) \<le> 1)
   \<and> (\<forall>h due w seq ws.
         find (\<lambda>t. fst t = h) (timers s) = Some (h, due, AutosaveFlush w seq ws)
         \<and> (routeId s = Some ''new'' \<longrightarrow> loadedIdRef s = Some ''new'') \<longrightarrow>
         isDirtyRef (fire env h s) = (isDirtyRef s \<and> seq \<noteq> editSeqRef s))"
proof -
  have p1: "reachable env s \<and> mounted s \<and> \<not> isHydratingRef s \<and> isFieldEdit e0
      \<and> (\<forall>(d, e) \<in> set b. d < 650 \<and> isFieldEdit e)
      \<and> exercises (workout (runBurst env b (step env e0 s))) \<noteq> [] \<longrightarrow>
      (let s' = runBurst env b (step env e0 s) in
         calls (gym s') = calls (gym s) \<and> isDirtyRef s'
         \<and> (\<exists>h. filter isAuto (timers s') =
               [(h, clock s' + 650,
                 AutosaveFlush (workout s') (editSeqRef s') (workouts (gym s)))])
         \<and> (\<forall>d\<ge>650.
               calls (gym (advance env d s'))
                 = calls (gym s) @ [flushCall (workouts (gym s)) (workout s')]
               \<and> \<not> isDirtyRef (advance env d s') \<and> noAuto (advance env d s')))"
  proof
    assume a: "reachable env s \<and> mounted s \<and> \<not> isHydratingRef s \<and> isFieldEdit e0
      \<and> (\<forall>(d, e) \<in> set b. d < 650 \<and> isFieldEdit e)
      \<and> exercises (workout (runBurst env b (step env e0 s))) \<noteq> []"
    then have i: "INV s" and m: "mounted s" and h: "\<not> isHydratingRef s" and fe: "isFieldEdit e0"
      and bb: "\<forall>(d, e) \<in> set b. d < 650 \<and> isFieldEdit e"
      and ne: "exercises (workout (runBurst env b (step env e0 s))) \<noteq> []"
      using reachable_INV by blast+
    let ?s0 = "step env e0 s"
    let ?s' = "runBurst env b ?s0"
    note r = fieldEdit_result[OF i m h fe, of env]
    have i0: "INV ?s0" using i by (rule step_inv)
    have x: "\<exists>h. filter isAuto (timers ?s0) =
       (if exercises (workout ?s0) = [] then []
        else [(h, clock ?s0 + 650, AutosaveFlush (workout ?s0) (editSeqRef ?s0) (workouts (gym s)))])"
      using r(6,7) by auto
    note B = burst_inv[OF i0 r(3) r(4) r(5) x r(2) r(1) bb, of env]
    from B ne obtain k where
      f: "filter isAuto (timers ?s') =
            [(k, clock ?s' + 650, AutosaveFlush (workout ?s') (editSeqRef ?s') (workouts (gym s)))]"
      by auto
    have fl: "\<forall>d\<ge>650.
               calls (gym (advance env d ?s'))
                 = calls (gym s) @ [flushCall (workouts (gym s)) (workout ?s')]
               \<and> \<not> isDirtyRef (advance env d ?s') \<and> noAuto (advance env d ?s')"
    proof (intro allI impI)
      fix d :: nat assume d: "650 \<le> d"
      have du: "clock ?s' + 650 \<le> clock ?s' + d" using d by simp
      have iB: "INV ?s'" using B by blast
      show "calls (gym (advance env d ?s'))
                 = calls (gym s) @ [flushCall (workouts (gym s)) (workout ?s')]
               \<and> \<not> isDirtyRef (advance env d ?s') \<and> noAuto (advance env d ?s')"
        using advance_flush[OF iB f du, of env] B by simp
    qed
    show "(let s' = runBurst env b (step env e0 s) in
         calls (gym s') = calls (gym s) \<and> isDirtyRef s'
         \<and> (\<exists>h. filter isAuto (timers s') =
               [(h, clock s' + 650,
                 AutosaveFlush (workout s') (editSeqRef s') (workouts (gym s)))])
         \<and> (\<forall>d\<ge>650.
               calls (gym (advance env d s'))
                 = calls (gym s) @ [flushCall (workouts (gym s)) (workout s')]
               \<and> \<not> isDirtyRef (advance env d s') \<and> noAuto (advance env d s')))"
      unfolding Let_def using B f fl by blast
  qed
  have p2: "reachable env s \<longrightarrow> length (filter isAuto (timers s)) \<le> 1"
    using reachable_INV at_most_one_autosave by blast
  have p3: "\<forall>h due w seq ws.
         find (\<lambda>t. fst t = h) (timers s) = Some (h, due, AutosaveFlush w seq ws)
         \<and> (routeId s = Some ''new'' \<longrightarrow> loadedIdRef s = Some ''new'') \<longrightarrow>
         isDirtyRef (fire env h s) = (isDirtyRef s \<and> seq \<noteq> editSeqRef s)"
    using fire_dirty by blast
  show ?thesis by (rule conjI[OF p1 conjI[OF p2 p3]])
qed

theorem quiet_window_autosave_witness:
  "reachable env0 sIdle \<and> mounted sIdle \<and> \<not> isHydratingRef sIdle
   \<and> isFieldEdit (EditTitle ''Legs'')
   \<and> list_all (\<lambda>(d, e). d < 650 \<and> isFieldEdit e)
         [(100::nat, EditNote ''heavy''), (649, EditTitle ''Leg day'')]
   \<and> exercises (workout (runBurst env0 [(100, EditNote ''heavy''), (649, EditTitle ''Leg day'')]
                           (step env0 (EditTitle ''Legs'') sIdle))) \<noteq> []
   \<and> calls (gym (advance env0 650
               (runBurst env0 [(100, EditNote ''heavy''), (649, EditTitle ''Leg day'')]
                  (step env0 (EditTitle ''Legs'') sIdle))))
       = [UpdateWorkout (wkA\<lparr>title := ''Leg day'', w_note := ''heavy''\<rparr>)]
   \<and> length (filter isAuto (timers sIdle)) \<le> 1
   \<and> find (\<lambda>t. fst t = 2) (timers sStale) = Some (2, 651, AutosaveFlush (workout sStale) 1 [wkA])
   \<and> routeId sStale \<noteq> Some ''new''
   \<and> isDirtyRef sStale \<and> isDirtyRef (fire env0 2 sStale)"
proof -
  let ?b = "[(100::nat, EditNote ''heavy''), (649, EditTitle ''Leg day'')]"
  let ?s' = "runBurst env0 ?b (step env0 (EditTitle ''Legs'') sIdle)"
  have r: "reachable env0 sIdle"
    unfolding sIdle_def sHydrated_def by (intro reachable.intros)
  have e: "mounted sIdle" "\<not> isHydratingRef sIdle" "exercises (workout ?s') \<noteq> []"
    "calls (gym sIdle) = []" "workouts (gym sIdle) = [wkA]"
    "workout ?s' = wkA\<lparr>title := ''Leg day'', w_note := ''heavy''\<rparr>"
    "find (\<lambda>t. fst t = 2) (timers sStale) = Some (2, 651, AutosaveFlush (workout sStale) 1 [wkA])"
    "routeId sStale \<noteq> Some ''new''" "isDirtyRef sStale" "editSeqRef sStale = 5"
    by code_simp+
  have b: "\<forall>(d, e) \<in> set ?b. d < 650 \<and> isFieldEdit e" by simp
  have f: "flushCall [wkA] (wkA\<lparr>title := ''Leg day'', w_note := ''heavy''\<rparr>)
      = UpdateWorkout (wkA\<lparr>title := ''Leg day'', w_note := ''heavy''\<rparr>)"
    by (simp add: flushCall_def wkA_def)
  note q1 = quiet_window_autosave[where s = sIdle and env = env0 and ?e0.0 = "EditTitle ''Legs''"
      and b = ?b]
  note q2 = quiet_window_autosave[where s = sStale and env = env0 and ?e0.0 = Resume
      and b = "[]", THEN conjunct2, THEN conjunct2, rule_format,
      of 2 651 "workout sStale" 1 "[wkA]"]
  have a1: "calls (gym (advance env0 650 ?s'))
       = [UpdateWorkout (wkA\<lparr>title := ''Leg day'', w_note := ''heavy''\<rparr>)]"
    using q1 r e(1-6) b f unfolding Let_def by (elim conjE) simp
  have a2: "length (filter isAuto (timers sIdle)) \<le> 1"
    using q1 r by (elim conjE) simp
  have a3: "isDirtyRef (fire env0 2 sStale)"
    using q2 e(7-10) by simp
  show ?thesis using a1 a2 a3 r e b by simp
qed

section \<open>At least one set\<close>

text \<open>
  Claim C9. Let every exercise of every workout in the store have a set when the editor
  is mounted, and let every refresh deliver such workouts. Then after any sequence of
  events every exercise of the working copy has at least one set. \<open>addExercise\<close> appends
  an exercise with exactly one set of weight 0 and reps 0 that is not completed;
  \<open>addSet\<close> appends one set to the exercise it names and changes no other; \<open>deleteSet\<close>
  removes the sets with the given id from the exercise it names and, when none is left,
  puts one set of weight 0 and reps 0 that is not completed in their place.
\<close>

theorem at_least_one_set:
  "(list_all setsOk (workouts g) \<and> list_all payloadOk es \<longrightarrow>
      setsOk (workout (fold (step env) es (mount env rid g))))
   \<and> (reachable env s \<and> mounted s \<longrightarrow>
        exercises (workout (addExercise env d s)) =
          exercises (workout s)
          @ [\<lparr>ex_id = generateId env (idCount (gym s)), defId = d,
               sets = [\<lparr>s_id = generateId env (idCount (gym s) + 1), weight = 0, reps = 0,
                        s_completed = False\<rparr>]\<rparr>])
   \<and> list_all2 (\<lambda>ex r. if ex_id ex = exId
                        then \<exists>st. r = ex\<lparr>sets := sets ex @ [st]\<rparr> \<and> \<not> s_completed st
                        else r = ex)
        (exercises (workout s)) (exercises (workout (addSet env exId s)))
   \<and> list_all2 (\<lambda>ex r. if ex_id ex = exId
                        then (if filter (\<lambda>st. s_id st \<noteq> setId) (sets ex) \<noteq> []
                              then r = ex\<lparr>sets := filter (\<lambda>st. s_id st \<noteq> setId) (sets ex)\<rparr>
                              else \<exists>g. r = ex\<lparr>sets := [\<lparr>s_id = g, weight = 0, reps = 0,
                                                         s_completed = False\<rparr>]\<rparr>)
                        else r = ex)
        (exercises (workout s)) (exercises (workout (deleteSet env exId setId s)))"
proof -
  have p1: "list_all setsOk (workouts g) \<and> list_all payloadOk es \<longrightarrow>
      setsOk (workout (fold (step env) es (mount env rid g)))"
    using trace_ok[OF mount_inv, of env rid g es env] mount_ok[of g env rid] by blast
  have p2: "reachable env s \<and> mounted s \<longrightarrow>
        exercises (workout (addExercise env d s)) =
          exercises (workout s)
          @ [\<lparr>ex_id = generateId env (idCount (gym s)), defId = d,
               sets = [\<lparr>s_id = generateId env (idCount (gym s) + 1), weight = 0, reps = 0,
                        s_completed = False\<rparr>]\<rparr>]"
    by (auto simp: addExercise_def Let_def workout_dirty defaultSet_def)
  have p3: "list_all2 (\<lambda>ex r. if ex_id ex = exId
                        then \<exists>st. r = ex\<lparr>sets := sets ex @ [st]\<rparr> \<and> \<not> s_completed st
                        else r = ex)
        (exercises (workout s)) (exercises (workout (addSet env exId s)))"
    using addSet_exercises_rel[of exId "exercises (workout s)" env "idCount (gym s)"]
    by (simp add: addSet_def localEdit_def case_prod_beta)
  have p4: "list_all2 (\<lambda>ex r. if ex_id ex = exId
                        then (if filter (\<lambda>st. s_id st \<noteq> setId) (sets ex) \<noteq> []
                              then r = ex\<lparr>sets := filter (\<lambda>st. s_id st \<noteq> setId) (sets ex)\<rparr>
                              else \<exists>g. r = ex\<lparr>sets := [\<lparr>s_id = g, weight = 0, reps = 0,
                                                         s_completed = False\<rparr>]\<rparr>)
                        else r = ex)
        (exercises (workout s)) (exercises (workout (deleteSet env exId setId s)))"
    using deleteSet_exercises_rel[of exId setId "exercises (workout s)" env "idCount (gym s)"]
    by (simp add: deleteSet_def localEdit_def case_prod_beta)
  show ?thesis by (rule conjI[OF p1 conjI[OF p2 conjI[OF p3 p4]]])
qed

theorem at_least_one_set_witness:
  "list_all setsOk (workouts gymA)
   \<and> list_all payloadOk [DeleteSet ''e1'' ''s1'', AddSet ''e1'', Refresh [wkB], AddExercise ''2'']
   \<and> setsOk (workout (fold (step env0)
        [DeleteSet ''e1'' ''s1'', AddSet ''e1'', Refresh [wkB], AddExercise ''2'']
        (mount env0 (Some ''a'') gymA)))
   \<and> reachable env0 sIdle \<and> mounted sIdle
   \<and> map (\<lambda>ex. map weight (sets ex)) (exercises (workout (addExercise env0 ''2'' sIdle)))
       = [[60], [0]]"
proof -
  have e: "list_all setsOk (workouts gymA)"
    "list_all payloadOk [DeleteSet ''e1'' ''s1'', AddSet ''e1'', Refresh [wkB], AddExercise ''2'']"
    "mounted sIdle" "map (\<lambda>ex. map weight (sets ex)) (exercises (workout sIdle)) = [[60]]"
    by code_simp+
  have r: "reachable env0 sIdle"
    unfolding sIdle_def sHydrated_def by (intro reachable.intros)
  note a = at_least_one_set[where g = gymA and env = env0 and rid = "Some ''a''" and s = sIdle
      and d = "''2''"
      and es = "[DeleteSet ''e1'' ''s1'', AddSet ''e1'', Refresh [wkB], AddExercise ''2'']"]
  have a1: "setsOk (workout (fold (step env0)
        [DeleteSet ''e1'' ''s1'', AddSet ''e1'', Refresh [wkB], AddExercise ''2'']
        (mount env0 (Some ''a'') gymA)))"
    using a[THEN conjunct1] e(1,2) by blast
  have a2: "map (\<lambda>ex. map weight (sets ex)) (exercises (workout (addExercise env0 ''2'' sIdle)))
       = [[60], [0]]"
    using a[THEN conjunct2, THEN conjunct1] r e(3,4) by simp
  show ?thesis using a1 a2 e r by simp
qed

section \<open>Swipe classification\<close>

text \<open>
  Claim C7, as stated, fails: the callbacks are optional, and the detector invokes a
  callback only if the caller gave it. With the callbacks that the dashboard gives (up
  and down), the drag with \<open>dx = -80\<close> and \<open>dy = 5\<close> invokes nothing.
\<close>

theorem swipe_classification_counterexample:
  "touchStart dragRight = Some (100, 50) \<and> touchEnd dragRight = Some (180, 45)
   \<and> swiped (swipe_onPointerUp dashboardCallbacks dragRight) = []"
  by code_simp

text \<open>
  Claim C7, amended. On pointer-up after a drag from \<open>st\<close> to the last point \<open>en\<close> of
  a pointer-move, with \<open>dx = st.x - en.x\<close> and \<open>dy = st.y - en.y\<close>: the gesture is
  horizontal iff \<open>|dx| > |dy|\<close>; nothing is invoked when the magnitude on the dominant
  axis is below 50; otherwise at most one callback is invoked, namely the one for the
  direction, if the caller gave it: left for positive \<open>dx\<close>, right for negative \<open>dx\<close>,
  up for positive \<open>dy\<close>, down for negative \<open>dy\<close>. With all four callbacks given,
  exactly one is invoked. For \<open>dx = -80\<close>, \<open>dy = 5\<close> and a swipe-right callback, that
  callback is invoked once and no other.
\<close>

theorem swipe_classification:
  assumes "touchStart s = Some st" and "touchEnd s = Some en"
  shows "let dx = fst st - fst en; dy = snd st - snd en; r = swipe_onPointerUp cbs s in
      touchStart r = touchStart s \<and> touchEnd r = touchEnd s
      \<and> (\<bar>dx\<bar> > \<bar>dy\<bar> \<and> \<bar>dx\<bar> < 50 \<longrightarrow> swiped r = swiped s)
      \<and> (\<not> \<bar>dx\<bar> > \<bar>dy\<bar> \<and> \<bar>dy\<bar> < 50 \<longrightarrow> swiped r = swiped s)
      \<and> (\<bar>dx\<bar> > \<bar>dy\<bar> \<and> \<bar>dx\<bar> \<ge> 50 \<and> dx > 0 \<longrightarrow>
            swiped r = swiped s @ (if onSwipeLeft cbs then [SwipeLeft] else []))
      \<and> (\<bar>dx\<bar> > \<bar>dy\<bar> \<and> \<bar>dx\<bar> \<ge> 50 \<and> dx < 0 \<longrightarrow>
            swiped r = swiped s @ (if onSwipeRight cbs then [SwipeRight] else []))
      \<and> (\<not> \<bar>dx\<bar> > \<bar>dy\<bar> \<and> \<bar>dy\<bar> \<ge> 50 \<and> dy > 0 \<longrightarrow>
            swiped r = swiped s @ (if onSwipeUp cbs then [SwipeUp] else []))
      \<and> (\<not> \<bar>dx\<bar> > \<bar>dy\<bar> \<and> \<bar>dy\<bar> \<ge> 50 \<and> dy < 0 \<longrightarrow>
            swiped r = swiped s @ (if onSwipeDown cbs then [SwipeDown] else []))
      \<and> (onSwipeUp cbs \<and> onSwipeDown cbs \<and> onSwipeLeft cbs \<and> onSwipeRight cbs
           \<and> max \<bar>dx\<bar> \<bar>dy\<bar> \<ge> 50 \<longrightarrow> (\<exists>d. swiped r = swiped s @ [d]))
      \<and> (dx = - 80 \<and> dy = 5 \<and> onSwipeRight cbs \<longrightarrow> swiped r = swiped s @ [SwipeRight])"
  using assms
  by (auto simp: swipe_onPointerUp_def Let_def minSwipeDistance_def)

theorem swipe_classification_witness:
  "touchStart dragRight = Some (100, 50) \<and> touchEnd dragRight = Some (180, 45)
   \<and> swiped (swipe_onPointerUp allCallbacks dragRight) = [SwipeRight]"
proof -
  have e: "touchStart dragRight = Some (100, 50)" "touchEnd dragRight = Some (180, 45)"
    "swiped dragRight = []" "onSwipeRight allCallbacks"
    by code_simp+
  show ?thesis
    using swipe_classification[OF e(1,2), of allCallbacks] e
    by (simp add: Let_def)
qed

section \<open>Where a released row settles\<close>

text \<open>
  Claim C8, as stated, fails: the two conditions can hold together, and then the row
  settles to \<open>+ACTION_WIDTH\<close>. A row that shows its right action and is flicked 20 px to
  the left within 10 ms satisfies the symmetric condition (net drag below \<open>-12\<close>,
  velocity above the threshold) and still settles to \<open>+ACTION_WIDTH\<close>.
\<close>

theorem reveal_snap_counterexample:
  "isDragging rowFlicked \<and> lockedAxis rowFlicked = Some AxisX
   \<and> offsetXRef rowFlicked = 108 \<and> baseOffset rowFlicked = 128
   \<and> offsetXRef rowFlicked - baseOffset rowFlicked < - 12
   \<and> \<bar>offsetXRef rowFlicked - baseOffset rowFlicked\<bar> / max 1 (10 - startTime rowFlicked)
       > VELOCITY_OPEN
   \<and> offsetXRef (handlePointerUp 10 rowFlicked) = ACTION_WIDTH
   \<and> offsetXRef (handlePointerUp 10 rowFlicked) \<noteq> - ACTION_WIDTH"
  by code_simp

text \<open>
  Claim C8, amended. On release of a horizontally locked drag, with \<open>x\<close> the offset,
  \<open>dx\<close> its change since pointer-down and \<open>v = |dx| / max(1, dt)\<close>: the row settles to
  \<open>+ACTION_WIDTH\<close> iff \<open>x > OPEN_THRESHOLD\<close> or (\<open>dx > 12\<close> and \<open>v > VELOCITY_OPEN\<close>); to
  \<open>-ACTION_WIDTH\<close> iff that condition fails and \<open>x < -OPEN_THRESHOLD\<close> or (\<open>dx < -12\<close> and
  \<open>v > VELOCITY_OPEN\<close>); and to \<open>0\<close> iff both conditions fail. Here
  \<open>OPEN_THRESHOLD = max(18, ACTION_WIDTH * 0.18)\<close>. A release at \<open>OPEN_THRESHOLD + 1\<close>
  settles to \<open>+ACTION_WIDTH\<close>, and one at \<open>OPEN_THRESHOLD - 1\<close> with a velocity of at
  most \<open>VELOCITY_OPEN\<close> settles to \<open>0\<close>.
\<close>

theorem reveal_snap:
  assumes "isDragging s" and "lockedAxis s = Some AxisX"
  shows "let x = offsetXRef s; dx = x - baseOffset s;
             v = \<bar>dx\<bar> / max 1 (now - startTime s);
             right = (x > OPEN_THRESHOLD \<or> (dx > 12 \<and> v > VELOCITY_OPEN));
             left = (x < - OPEN_THRESHOLD \<or> (dx < - 12 \<and> v > VELOCITY_OPEN));
             x' = offsetXRef (handlePointerUp now s)
         in OPEN_THRESHOLD = max 18 (ACTION_WIDTH * 0.18)
            \<and> (x' = ACTION_WIDTH \<longleftrightarrow> right)
            \<and> (x' = - ACTION_WIDTH \<longleftrightarrow> \<not> right \<and> left)
            \<and> (x' = 0 \<longleftrightarrow> \<not> right \<and> \<not> left)
            \<and> (x = OPEN_THRESHOLD + 1 \<longrightarrow> x' = ACTION_WIDTH)
            \<and> (x = OPEN_THRESHOLD - 1 \<and> v \<le> VELOCITY_OPEN \<longrightarrow> x' = 0)"
proof -
  define x where "x = offsetXRef s"
  define dx where "dx = x - baseOffset s"
  define v where "v = \<bar>dx\<bar> / max 1 (now - startTime s)"
  define right where "right = (x > OPEN_THRESHOLD \<or> (dx > 12 \<and> v > VELOCITY_OPEN))"
  define left where "left = (x < - OPEN_THRESHOLD \<or> (dx < - 12 \<and> v > VELOCITY_OPEN))"
  define x' where "x' = offsetXRef (handlePointerUp now s)"
  have r: "x' = (if right then ACTION_WIDTH else if left then - ACTION_WIDTH else 0)"
    unfolding x'_def right_def left_def v_def dx_def x_def
    by (rule handlePointerUp_offset[OF assms])
  have p: "0 < ACTION_WIDTH" by (rule ACTION_WIDTH_pos)
  have c1: "x' = ACTION_WIDTH \<longleftrightarrow> right" using r p by auto
  have c2: "x' = - ACTION_WIDTH \<longleftrightarrow> \<not> right \<and> left" using r p by auto
  have c3: "x' = 0 \<longleftrightarrow> \<not> right \<and> \<not> left" using r p by auto
  have c4: "x = OPEN_THRESHOLD + 1 \<longrightarrow> x' = ACTION_WIDTH"
    using c1 by (simp add: right_def)
  have c5: "x = OPEN_THRESHOLD - 1 \<and> v \<le> VELOCITY_OPEN \<longrightarrow> x' = 0"
    using c3 OPEN_THRESHOLD_ge by (auto simp: right_def left_def)
  have c0: "OPEN_THRESHOLD = max 18 (ACTION_WIDTH * 0.18)" by (simp add: OPEN_THRESHOLD_def)
  show ?thesis
    unfolding Let_def
    using c0 c1 c2 c3 c4 c5
    unfolding x'_def right_def left_def v_def dx_def x_def
    by blast
qed

theorem reveal_snap_witness:
  "isDragging rowAbove \<and> lockedAxis rowAbove = Some AxisX
   \<and> offsetXRef rowAbove = OPEN_THRESHOLD + 1
   \<and> offsetXRef (handlePointerUp 400 rowAbove) = ACTION_WIDTH
   \<and> isDragging rowBelow \<and> lockedAxis rowBelow = Some AxisX
   \<and> offsetXRef rowBelow = OPEN_THRESHOLD - 1
   \<and> \<bar>offsetXRef rowBelow - baseOffset rowBelow\<bar> / max 1 (400 - startTime rowBelow)
       \<le> VELOCITY_OPEN
   \<and> offsetXRef (handlePointerUp 400 rowBelow) = 0"
proof -
  have a: "isDragging rowAbove" "lockedAxis rowAbove = Some AxisX"
    "offsetXRef rowAbove = OPEN_THRESHOLD + 1"
    by (simp_all add: rowAbove_def)
  have b: "isDragging rowBelow" "lockedAxis rowBelow = Some AxisX"
    "offsetXRef rowBelow = OPEN_THRESHOLD - 1"
    by (simp_all add: rowBelow_def)
  have v: "\<bar>offsetXRef rowBelow - baseOffset rowBelow\<bar> / max 1 (400 - startTime rowBelow)
       \<le> VELOCITY_OPEN"
    by (simp add: rowBelow_def OPEN_THRESHOLD_def ACTION_WIDTH_def VELOCITY_OPEN_def)
  have 1: "offsetXRef (handlePointerUp 400 rowAbove) = ACTION_WIDTH"
    using reveal_snap[OF a(1,2), of 400] a(3) unfolding Let_def by blast
  have 2: "offsetXRef (handlePointerUp 400 rowBelow) = 0"
    using reveal_snap[OF b(1,2), of 400] b(3) v unfolding Let_def by blast
  show ?thesis using a b v 1 2 by simp
qed

section \<open>Long press and tap\<close>

text \<open>
  When React renders the update of a timeout before the next event arrives, a pointer
  session (a pointer-down on a reachable state of the hook, followed by any events other
  than a pointer-down) invokes the two callbacks at most once in total: nothing, one tap
  or one long press. And when the pointer goes down on the idle hook, stays within 10 px
  of that point and is held until at least \<open>ms\<close> have passed (\<open>ms > 0\<close>), the pointer-up
  finds the long press invoked and no tap.
\<close>

lemma session_when_rendered:
  "(lp_reachable ms s \<and> list_all rendered es \<longrightarrow>
      (\<exists>xs. invoked (fold (lp_step ms) (PointerDown p # es) s) = invoked s @ xs
         \<and> (xs = [] \<or> xs = [OnTap] \<or> xs = [OnLongPress])))
   \<and> (lp_reachable ms s \<and> \<not> startLongPress s \<and> 0 < ms
        \<and> list_all (holdEvent p) hs \<and> ms \<le> elapsed hs \<longrightarrow>
      invoked (fold (lp_step ms) (PointerDown p # hs @ [PointerUp]) s)
        = invoked s @ [OnLongPress])"
proof -
  have p1: "lp_reachable ms s \<and> list_all rendered es \<longrightarrow>
      (\<exists>xs. invoked (fold (lp_step ms) (PointerDown p # es) s) = invoked s @ xs
         \<and> (xs = [] \<or> xs = [OnTap] \<or> xs = [OnLongPress]))"
  proof
    assume a: "lp_reachable ms s \<and> list_all rendered es"
    then have i: "lp_inv s" using lp_reachable_inv by blast
    note d = down_inv[OF i, of ms p]
    from lp_fold_potential[OF d(1), of es ms] a obtain xs where
      x: "invoked (fold (lp_step ms) es (lp_onPointerDown ms p s))
            = invoked (lp_onPointerDown ms p s) @ xs"
         "length xs \<le> 1"
      by (auto split: if_splits)
    have "xs = [] \<or> xs = [OnTap] \<or> xs = [OnLongPress]"
    proof (cases xs)
      case Nil
      then show ?thesis by simp
    next
      case (Cons c cs)
      then have "cs = []" using x(2) by simp
      then show ?thesis using Cons by (cases c) simp_all
    qed
    then show "\<exists>xs. invoked (fold (lp_step ms) (PointerDown p # es) s) = invoked s @ xs
         \<and> (xs = [] \<or> xs = [OnTap] \<or> xs = [OnLongPress])"
      using x(1) d(2) by auto
  qed
  have p2: "lp_reachable ms s \<and> \<not> startLongPress s \<and> 0 < ms
        \<and> list_all (holdEvent p) hs \<and> ms \<le> elapsed hs \<longrightarrow>
      invoked (fold (lp_step ms) (PointerDown p # hs @ [PointerUp]) s)
        = invoked s @ [OnLongPress]"
  proof
    assume a: "lp_reachable ms s \<and> \<not> startLongPress s \<and> 0 < ms
        \<and> list_all (holdEvent p) hs \<and> ms \<le> elapsed hs"
    then have i: "lp_inv s" using lp_reachable_inv by blast
    have na: "\<not> startLongPress s" using a by blast
    note e = lp_inv_idle[OF i na]
    let ?pre = "s\<lparr>startPos := Some p, startLongPress := True\<rparr>"
    let ?dn = "lp_onPointerDown ms p s"
    have "\<forall>t \<in> set (lp_timers ?pre). timerRef ?pre = Some (fst t)" using e by simp
    from lp_commit_armed[OF this, of ms] a have t:
      "?dn = ?pre\<lparr>lp_timers := [(lp_nextTimerId s, lp_clock s + ms, ())],
               timerRef := Some (lp_nextTimerId s), lp_nextTimerId := Suc (lp_nextTimerId s)\<rparr>"
      by (simp add: lp_onPointerDown_def)
    have h: "\<not> startLongPress (fold (lp_step ms) hs ?dn) \<and> lp_timers (fold (lp_step ms) hs ?dn) = []
       \<and> invoked (fold (lp_step ms) hs ?dn) = invoked ?dn @ [OnLongPress]"
      using a e by (intro hold_armed[where n = "lp_nextTimerId s" and D = "lp_clock s + ms" and p = p])
        (simp_all add: t)
    then show "invoked (fold (lp_step ms) (PointerDown p # hs @ [PointerUp]) s)
        = invoked s @ [OnLongPress]"
      by (simp add: lp_onPointerUp_def t)
  qed
  show ?thesis by (rule conjI[OF p1 p2])
qed

lemma session_when_rendered_example:
  "invoked (fold (lp_step 500)
        (PointerDown (10, 10)
           # [PointerMove (12, 9), Elapse 300, PointerMove (4, 20), Elapse 200] @ [PointerUp])
        lp_mount) = [OnLongPress]
   \<and> invoked (fold (lp_step 500) [PointerDown (10, 10), PointerUp, Elapse 500] lp_mount) = [OnTap]
   \<and> invoked (fold (lp_step 500)
        [PointerDown (10, 10), ElapseUnrendered 500, Render, PointerUp] lp_mount) = [OnLongPress]"
proof -
  have r: "lp_reachable 500 lp_mount" by (rule lp_reach_mount)
  have e: "\<not> startLongPress lp_mount" "invoked lp_mount = []"
    "list_all (holdEvent (10, 10)) [PointerMove (12, 9), Elapse 300, PointerMove (4, 20), Elapse 200]"
    "500 \<le> elapsed [PointerMove (12, 9), Elapse 300, PointerMove (4, 20), Elapse 200]"
    by (simp_all add: lp_mount_def)
  have h: "invoked (fold (lp_step 500)
        (PointerDown (10, 10)
           # [PointerMove (12, 9), Elapse 300, PointerMove (4, 20), Elapse 200] @ [PointerUp])
        lp_mount) = [OnLongPress]"
    using session_when_rendered[where ms = 500 and s = lp_mount and p = "(10, 10)"
        and hs = "[PointerMove (12, 9), Elapse 300, PointerMove (4, 20), Elapse 200]"
        and es = "[]", THEN conjunct2] r e
    by simp
  have c: "invoked (fold (lp_step 500) [PointerDown (10, 10), PointerUp, Elapse 500] lp_mount) = [OnTap]"
    "invoked (fold (lp_step 500)
        [PointerDown (10, 10), ElapseUnrendered 500, Render, PointerUp] lp_mount) = [OnLongPress]"
    by code_simp+
  show ?thesis using h c by simp
qed

text \<open>
  Claim C6. A pointer session of \<open>useLongPress\<close> is to invoke the tap callback, the
  long-press callback or neither, never both, also when the timeout and a pointer-up fall
  together. The hook does not meet this. The pointer goes down and is held for 500 ms; the
  timeout runs and invokes the long-press callback; the pointer goes up before React has
  rendered the \<open>setStartLongPress(false)\<close> of the timeout. The pointer-up handler is the
  one of the last render and reads \<open>startLongPress\<close> as true. \<open>timerRef.current\<close> still
  holds the handle of the timer that has run, since nothing resets it, so the test that
  is to let a tap through only if the timer has not fired yet passes. The session invokes
  the long-press callback and then the tap callback.
\<close>

theorem long_press_race:
  "invoked (fold (lp_step 500) [PointerDown (10, 10), ElapseUnrendered 500, PointerUp] lp_mount)
     = [OnLongPress, OnTap]"
  by code_simp

end

